theory Spec2Isabelle
  imports Complex_Main "HOL-Library.Word" "HOL-Library.Char_ord" "HOL-Library.List_Lexorder"
    "HOL-Library.Monad_Syntax" "HOL-Library.AList" "HOL-Library.Sublist"
begin

chapter \<open>The tricorder metrics registry\<close>

text \<open>
  A shallow embedding of the Go package \<^verbatim>\<open>tricorder\<close>: the bucketed distribution
  (\<^verbatim>\<open>Bucketer\<close>, \<^verbatim>\<open>distribution\<close>, \<^verbatim>\<open>snapshot\<close>) and the metrics namespace
  (\<^verbatim>\<open>directory\<close>, \<^verbatim>\<open>listEntry\<close>, \<^verbatim>\<open>metric\<close>, \<^verbatim>\<open>pathSpec\<close>).

  Conventions of the embedding.
  \<^item> A Go \<^verbatim>\<open>uint64\<close> is a \<^typ>\<open>64 word\<close>: \<^verbatim>\<open>++\<close> wraps at \<open>2^64\<close>.
  \<^item> A Go \<^verbatim>\<open>float64\<close> is the \<^typ>\<open>real\<close> number it denotes and its arithmetic is exact:
    the model covers finite values only, and neither rounding nor NaN nor the
    infinities exist in it. Comparisons of finite values are the comparisons of reals.
    The median is computed a second time with every operation rounded to binary64.
  \<^item> A run-time panic (an index out of range, an explicit \<^verbatim>\<open>panic\<close>) is the value
    \<open>None\<close> of an \<open>option\<close> result, or \<open>Inl\<close> of a sum where the panic has to be told
    from an error that is returned.
  \<^item> The lock of a distribution is not modelled: every operation is one atomic step.
\<close>

section \<open>Buckets\<close>

text \<open>
  \<^verbatim>\<open>bucketPiece\<close>: one range of a distribution. \<open>Start\<close> is inclusive, \<open>End\<close>
  exclusive; the first piece has no lower bound and the last no upper bound (the unused
  field keeps Go's zero value).
\<close>

record bucketPiece =
  Start :: real
  End :: real
  First :: bool
  Last :: bool

type_synonym Bucketer = "bucketPiece list"

text \<open>Go's \<^verbatim>\<open>xs[i]\<close>: an index out of range panics.\<close>

definition index :: "'a list \<Rightarrow> nat \<Rightarrow> 'a option" where
  "index xs i = (if i < length xs then Some (xs ! i) else None)"

text \<open>
  \<^verbatim>\<open>newBucketerFromStream\<close> reads the cut points from a channel that a goroutine
  fills; the channel is modelled by the list of the values sent on it, and in every
  caller \<open>streamSize\<close> is the length of that list. The first value closes the first
  piece, every further value closes a middle piece, the last piece stays open.
\<close>

fun middlePieces :: "real \<Rightarrow> real list \<Rightarrow> bucketPiece list" where
  "middlePieces lower [] = [\<lparr>Start = lower, End = 0, First = False, Last = True\<rparr>]"
| "middlePieces lower (upper # stream) =
     \<lparr>Start = lower, End = upper, First = False, Last = False\<rparr> # middlePieces upper stream"

definition newBucketerFromStream :: "int \<Rightarrow> real list \<Rightarrow> Bucketer option" where
  "newBucketerFromStream streamSize stream =
     (if streamSize < 1 then None
      else case stream of
        [] \<Rightarrow> None
      | lower # rest \<Rightarrow>
          Some (\<lparr>Start = 0, End = lower, First = True, Last = False\<rparr> # middlePieces lower rest))"

text \<open>The three streams: \<open>count - 1\<close> cut points each (\<open>count\<close> is a Go \<^verbatim>\<open>int\<close>).\<close>

fun exponentialStream :: "nat \<Rightarrow> real \<Rightarrow> real \<Rightarrow> real list" where
  "exponentialStream 0 current scale = []"
| "exponentialStream (Suc n) current scale = current # exponentialStream n (current * scale) scale"

fun linearStream :: "nat \<Rightarrow> real \<Rightarrow> real \<Rightarrow> real list" where
  "linearStream 0 current increment = []"
| "linearStream (Suc n) current increment = current # linearStream n (current + increment) increment"

definition newExponentialBucketerStream :: "int \<Rightarrow> real \<Rightarrow> real \<Rightarrow> (int \<times> real list) option" where
  "newExponentialBucketerStream count start scale =
     (if count < 2 \<or> start \<le> 0 \<or> scale \<le> 1 then None
      else Some (count - 1, exponentialStream (nat (count - 1)) start scale))"

definition newLinearBucketerStream :: "int \<Rightarrow> real \<Rightarrow> real \<Rightarrow> (int \<times> real list) option" where
  "newLinearBucketerStream count start increment =
     (if count < 2 \<or> increment \<le> 0 then None
      else Some (count - 1, linearStream (nat (count - 1)) start increment))"

definition newArbitraryBucketerStream :: "real list \<Rightarrow> (int \<times> real list) option" where
  "newArbitraryBucketerStream endpoints =
     (if length endpoints = 0 then None else Some (int (length endpoints), endpoints))"

definition NewExponentialBucketer :: "int \<Rightarrow> real \<Rightarrow> real \<Rightarrow> Bucketer option" where
  "NewExponentialBucketer count start scale =
     newExponentialBucketerStream count start scale \<bind> (\<lambda>(n, s). newBucketerFromStream n s)"

definition NewLinearBucketer :: "int \<Rightarrow> real \<Rightarrow> real \<Rightarrow> Bucketer option" where
  "NewLinearBucketer count start increment =
     newLinearBucketerStream count start increment \<bind> (\<lambda>(n, s). newBucketerFromStream n s)"

definition NewArbitraryBucketer :: "real list \<Rightarrow> Bucketer option" where
  "NewArbitraryBucketer endpoints =
     newArbitraryBucketerStream endpoints \<bind> (\<lambda>(n, s). newBucketerFromStream n s)"

section \<open>Distributions\<close>

text \<open>
  \<^verbatim>\<open>distribution\<close>. The Go fields \<^verbatim>\<open>min\<close> and \<^verbatim>\<open>max\<close> are \<open>min_val\<close> and \<open>max_val\<close>
  here (\<open>min\<close> and \<open>max\<close> are functions of HOL).
\<close>

record distribution =
  pieces :: "bucketPiece list"
  counts :: "64 word list"
  total :: real
  min_val :: real
  max_val :: real
  count :: "64 word"

definition newDistribution :: "Bucketer \<Rightarrow> distribution" where
  "newDistribution bucketer =
     \<lparr>pieces = bucketer, counts = replicate (length bucketer) 0,
      total = 0, min_val = 0, max_val = 0, count = 0\<rparr>"

text \<open>
  \<^verbatim>\<open>sort.Search(n, f)\<close> of Go's standard library: binary search for the smallest index
  in \<open>[0, n)\<close> at which \<open>f\<close> holds, \<open>n\<close> when there is none (for a monotone \<open>f\<close>).
\<close>

function Search_loop :: "(nat \<Rightarrow> bool) \<Rightarrow> nat \<Rightarrow> nat \<Rightarrow> nat" where
  "Search_loop f i j =
     (if i < j then
        (let h = (i + j) div 2 in
         if \<not> f h then Search_loop f (h + 1) j else Search_loop f i h)
      else i)"
  by pat_completeness auto
termination
  by (relation "measure (\<lambda>(f, i, j). j - i)") auto

declare Search_loop.simps [simp del]

definition Search :: "nat \<Rightarrow> (nat \<Rightarrow> bool) \<Rightarrow> nat" where
  "Search n f = Search_loop f 0 n"

definition findDistributionIndex :: "bucketPiece list \<Rightarrow> real \<Rightarrow> nat" where
  "findDistributionIndex ps v = Search (length ps - 1) (\<lambda>i. v < End (ps ! i))"

text \<open>\<^verbatim>\<open>Add\<close>, with the update of \<^verbatim>\<open>d\<close> in place written as the new value of \<open>d\<close>.\<close>

definition Add :: "distribution \<Rightarrow> real \<Rightarrow> distribution option" where
  "Add d v =
     (let idx = findDistributionIndex (pieces d) v in
      do {
        c \<leftarrow> index (counts d) idx;
        let d = d\<lparr>counts := (counts d)[idx := c + 1]\<rparr>;
        let d = d\<lparr>total := total d + v\<rparr>;
        let d = (if count d = 0 then d\<lparr>min_val := v, max_val := v\<rparr>
                 else if v < min_val d then d\<lparr>min_val := v\<rparr>
                 else if v > max_val d then d\<lparr>max_val := v\<rparr>
                 else d);
        Some (d\<lparr>count := count d + 1\<rparr>)
      })"

text \<open>A sequence of \<^verbatim>\<open>Add\<close> calls, in order.\<close>

fun Adds :: "distribution \<Rightarrow> real list \<Rightarrow> distribution option" where
  "Adds d [] = Some d"
| "Adds d (v # vs) = Add d v \<bind> (\<lambda>d'. Adds d' vs)"

text \<open>
  \<^verbatim>\<open>valueIndexToPiece\<close>: the loop reads \<^verbatim>\<open>counts[pieceIdx]\<close> and panics when it runs
  past the last count.
\<close>

function valueIndexToPiece_loop ::
  "64 word list \<Rightarrow> real \<Rightarrow> nat \<Rightarrow> real \<Rightarrow> (nat \<times> real) option" where
  "valueIndexToPiece_loop cs valueIdx pieceIdx startValueIdxInPiece =
     (case index cs pieceIdx of
        None \<Rightarrow> None
      | Some c \<Rightarrow>
          if valueIdx - startValueIdxInPiece \<ge> real (unat c)
          then valueIndexToPiece_loop cs valueIdx (pieceIdx + 1) (startValueIdxInPiece + real (unat c))
          else Some (pieceIdx, (valueIdx - startValueIdxInPiece) / real (unat c)))"
  by pat_completeness auto
termination
  by (relation "measure (\<lambda>(cs, v, p, s). length cs - p)") (auto simp: index_def split: if_splits)

declare valueIndexToPiece_loop.simps [simp del]

definition valueIndexToPiece :: "64 word list \<Rightarrow> real \<Rightarrow> (nat \<times> real) option" where
  "valueIndexToPiece cs valueIdx = valueIndexToPiece_loop cs valueIdx 0 (- 0.5)"

definition interpolate :: "real \<Rightarrow> real \<Rightarrow> real \<Rightarrow> real" where
  "interpolate mn mx frc = (1.0 - frc) * mn + frc * mx"

definition calculateMedian :: "distribution \<Rightarrow> real option" where
  "calculateMedian d =
     (if count d = 1 then Some (min_val d)
      else do {
        let medianIndex = real (unat (count d - 1)) / 2.0;
        (pieceIdx, frc) \<leftarrow> valueIndexToPiece (counts d) medianIndex;
        let pieceLen = int (length (pieces d));
        if pieceIdx = 0 then do {
          p \<leftarrow> index (pieces d) 0;
          Some (interpolate (min_val d) (min (End p) (max_val d)) frc)
        }
        else if int pieceIdx = pieceLen - 1 then do {
          p \<leftarrow> index (pieces d) (nat (pieceLen - 1));
          Some (interpolate (max (Start p) (min_val d)) (max_val d) frc)
        }
        else do {
          p \<leftarrow> index (pieces d) pieceIdx;
          Some (interpolate (max (Start p) (min_val d)) (min (End p) (max_val d)) frc)
        }
      })"

text \<open>
  \<^verbatim>\<open>breakdownPiece\<close> embeds a \<^verbatim>\<open>*bucketPiece\<close> (field \<open>piece\<close>); the fields
  \<^verbatim>\<open>Min\<close>, \<^verbatim>\<open>Max\<close> and \<^verbatim>\<open>Count\<close> of \<^verbatim>\<open>snapshot\<close> are \<open>sMin\<close>, \<open>sMax\<close> and \<open>sCount\<close>.
\<close>

record breakdownPiece =
  piece :: bucketPiece
  Count :: "64 word"

record snapshot =
  sMin :: real
  sMax :: real
  Average :: real
  Median :: real
  sCount :: "64 word"
  Breakdown :: "breakdownPiece list"

text \<open>The loop \<^verbatim>\<open>for i := range bdn { bdn[i].Count = d.counts[i] }\<close>.\<close>

fun copyCounts :: "breakdownPiece list \<Rightarrow> 64 word list \<Rightarrow> nat \<Rightarrow> breakdownPiece list option" where
  "copyCounts [] cs i = Some []"
| "copyCounts (b # bdn) cs i =
     do { c \<leftarrow> index cs i; rest \<leftarrow> copyCounts bdn cs (i + 1); Some (b\<lparr>Count := c\<rparr> # rest) }"

definition Snapshot :: "distribution \<Rightarrow> snapshot option" where
  "Snapshot d =
     do {
       let bdn = map (\<lambda>p. \<lparr>piece = p, Count = 0\<rparr>) (pieces d);
       bdn \<leftarrow> copyCounts bdn (counts d) 0;
       if count d = 0 then
         Some \<lparr>sMin = 0, sMax = 0, Average = 0, Median = 0, sCount = count d, Breakdown = bdn\<rparr>
       else do {
         median \<leftarrow> calculateMedian d;
         Some \<lparr>sMin = min_val d, sMax = max_val d, Average = total d / real (unat (count d)),
               Median = median, sCount = count d, Breakdown = bdn\<rparr>
       }
     }"
subsection \<open>Rounding to float64\<close>

text \<open>
  The arithmetic of the definitions above is exact. The functions of this section repeat
  the computation of the median with every operation rounded, so that the two can be
  compared. \<open>round64 x\<close> is the binary64 number nearest to \<open>x\<close>, the even one of two
  that are equally near: \<open>normalize64\<close> scales \<open>\<bar>x\<bar>\<close> by a power of two into the
  interval from \<open>2^52\<close> to \<open>2^53\<close>, where the binary64 numbers are the integers.
  Overflow and the subnormal numbers are not modelled (a number that the scaling does not
  reach within its fuel is left as it is). Every operation is rounded on its own, as
  the compiler does it on \<^verbatim>\<open>amd64\<close>; the conversion \<^verbatim>\<open>float64(n)\<close> of a \<^verbatim>\<open>uint64\<close>
  rounds as well.
\<close>

fun normalize64 :: "nat \<Rightarrow> real \<Rightarrow> int \<Rightarrow> (real \<times> int) option" where
  "normalize64 0 x e = None"
| "normalize64 (Suc fuel) x e =
     (if 2 ^ 53 \<le> x then normalize64 fuel (x / 2) (e + 1)
      else if x < 2 ^ 52 then normalize64 fuel (x * 2) (e - 1)
      else Some (x, e))"

definition roundToEven :: "real \<Rightarrow> int" where
  "roundToEven x =
     (let n = \<lfloor>x\<rfloor>; r = x - of_int n in
      if r < 1 / 2 then n else if 1 / 2 < r then n + 1 else if even n then n else n + 1)"

definition round64 :: "real \<Rightarrow> real" where
  "round64 x =
     (if x = 0 then 0
      else case normalize64 1074 \<bar>x\<bar> 0 of
        None \<Rightarrow> x
      | Some (y, e) \<Rightarrow> sgn x * of_int (roundToEven y) * 2 powi e)"

text \<open>
  \<^verbatim>\<open>valueIndexToPiece\<close>, \<^verbatim>\<open>interpolate\<close> and \<^verbatim>\<open>calculateMedian\<close> once more, rounded.
\<close>

function valueIndexToPiece64_loop ::
  "64 word list \<Rightarrow> real \<Rightarrow> nat \<Rightarrow> real \<Rightarrow> (nat \<times> real) option" where
  "valueIndexToPiece64_loop cs valueIdx pieceIdx startValueIdxInPiece =
     (case index cs pieceIdx of
        None \<Rightarrow> None
      | Some c \<Rightarrow>
          if round64 (valueIdx - startValueIdxInPiece) \<ge> round64 (real (unat c))
          then valueIndexToPiece64_loop cs valueIdx (pieceIdx + 1)
                 (round64 (startValueIdxInPiece + round64 (real (unat c))))
          else Some (pieceIdx, round64 (round64 (valueIdx - startValueIdxInPiece) / round64 (real (unat c)))))"
  by pat_completeness auto

termination
  by (relation "measure (\<lambda>(cs, v, p, s). length cs - p)") (auto simp: index_def split: if_splits)

declare valueIndexToPiece64_loop.simps [simp del]

definition valueIndexToPiece64 :: "64 word list \<Rightarrow> real \<Rightarrow> (nat \<times> real) option" where
  "valueIndexToPiece64 cs valueIdx = valueIndexToPiece64_loop cs valueIdx 0 (- 0.5)"

definition interpolate64 :: "real \<Rightarrow> real \<Rightarrow> real \<Rightarrow> real" where
  "interpolate64 mn mx frc = round64 (round64 (round64 (1.0 - frc) * mn) + round64 (frc * mx))"

definition calculateMedian64 :: "distribution \<Rightarrow> real option" where
  "calculateMedian64 d =
     (if count d = 1 then Some (min_val d)
      else do {
        let medianIndex = round64 (round64 (real (unat (count d - 1))) / 2.0);
        (pieceIdx, frc) \<leftarrow> valueIndexToPiece64 (counts d) medianIndex;
        let pieceLen = int (length (pieces d));
        if pieceIdx = 0 then do {
          p \<leftarrow> index (pieces d) 0;
          Some (interpolate64 (min_val d) (min (End p) (max_val d)) frc)
        }
        else if int pieceIdx = pieceLen - 1 then do {
          p \<leftarrow> index (pieces d) (nat (pieceLen - 1));
          Some (interpolate64 (max (Start p) (min_val d)) (max_val d) frc)
        }
        else do {
          p \<leftarrow> index (pieces d) pieceIdx;
          Some (interpolate64 (max (Start p) (min_val d)) (min (End p) (max_val d)) frc)
        }
      })"

subsection \<open>Invariants of a distribution\<close>



section \<open>Paths\<close>

text \<open>
  \<^verbatim>\<open>pathSpec\<close> is a slice of strings. A Go string is a sequence of bytes, here a
  \<^typ>\<open>string\<close>, one \<^typ>\<open>char\<close> per byte; strings are compared byte by byte
  (\<open>Char_ord\<close>, \<open>List_Lexorder\<close>), as Go's \<^verbatim>\<open><\<close> compares them.
\<close>

type_synonym pathSpec = "string list"

text \<open>\<^verbatim>\<open>strings.Split(path, "/")\<close>: the substrings between the slashes, one more than there are slashes.\<close>

fun Split :: "string \<Rightarrow> string list" where
  "Split [] = [[]]"
| "Split (c # cs) =
     (if c = CHR ''/'' then [] # Split cs
      else (case Split cs of w # ws \<Rightarrow> (c # w) # ws | [] \<Rightarrow> [[c]]))"

text \<open>
  \<^verbatim>\<open>strings.TrimSpace(s) == ""\<close> holds when \<open>s\<close> consists of Unicode white space only.
  On the UTF-8 bytes of \<open>s\<close>: the one-byte white space characters are tab, line feed,
  vertical tab, form feed, carriage return and space; U+0085 and U+00A0 take two bytes;
  U+1680, U+2000 to U+200A, U+2028, U+2029, U+202F, U+205F and U+3000 take three.
\<close>

definition isSpace1 :: "nat \<Rightarrow> bool" where
  "isSpace1 b \<longleftrightarrow> b = 9 \<or> b = 10 \<or> b = 11 \<or> b = 12 \<or> b = 13 \<or> b = 32"

fun blank :: "nat list \<Rightarrow> bool" where
  "blank [] = True"
| "blank (b # bs) =
     (if isSpace1 b then blank bs
      else case bs of
        b2 # bs2 \<Rightarrow>
          if b = 194 \<and> (b2 = 133 \<or> b2 = 160) then blank bs2
          else (case bs2 of
            b3 # bs3 \<Rightarrow>
              if (b = 225 \<and> b2 = 154 \<and> b3 = 128) \<or>
                 (b = 226 \<and> b2 = 128 \<and> (128 \<le> b3 \<and> b3 \<le> 138 \<or> b3 = 168 \<or> b3 = 169 \<or> b3 = 175)) \<or>
                 (b = 226 \<and> b2 = 129 \<and> b3 = 159) \<or>
                 (b = 227 \<and> b2 = 128 \<and> b3 = 128)
              then blank bs3 else False
          | [] \<Rightarrow> False)
      | [] \<Rightarrow> False)"

definition TrimSpace_empty :: "string \<Rightarrow> bool" where
  "TrimSpace_empty s = blank (map of_char s)"

text \<open>
  \<^verbatim>\<open>newPathSpec\<close>: the loop copies the parts that are not blank to the front of
  \<open>parts\<close>; \<open>i\<close> is the loop variable, and the result is \<open>parts[:idx]\<close>.
\<close>

function newPathSpec_loop :: "string list \<Rightarrow> nat \<Rightarrow> nat \<Rightarrow> string list \<times> nat" where
  "newPathSpec_loop parts i idx =
     (if i < length parts then
        (if TrimSpace_empty (parts ! i) then newPathSpec_loop parts (i + 1) idx
         else newPathSpec_loop (parts[idx := parts ! i]) (i + 1) (idx + 1))
      else (parts, idx))"
  by pat_completeness auto

termination
  by (relation "measure (\<lambda>(parts, i, idx). length parts - i)") auto

declare newPathSpec_loop.simps [simp del]

definition newPathSpec :: "string \<Rightarrow> pathSpec" where
  "newPathSpec path = (case newPathSpec_loop (Split path) 0 0 of (parts, idx) \<Rightarrow> take idx parts)"

text \<open>\<^verbatim>\<open>Dir\<close> and \<^verbatim>\<open>Base\<close> panic on the empty path (\<open>None\<close>).\<close>

definition Dir :: "pathSpec \<Rightarrow> pathSpec option" where
  "Dir p = (if length p = 0 then None else Some (take (length p - 1) p))"

definition Base :: "pathSpec \<Rightarrow> string option" where
  "Base p = (if length p = 0 then None else Some (p ! (length p - 1)))"

definition Empty :: "pathSpec \<Rightarrow> bool" where
  "Empty p \<longleftrightarrow> length p = 0"

text \<open>\<^verbatim>\<open>strings.Join\<close>, and \<^verbatim>\<open>pathSpec.String\<close>.\<close>

fun Join :: "string list \<Rightarrow> string \<Rightarrow> string" where
  "Join [] sep = []"
| "Join [a] sep = a"
| "Join (a # b # rest) sep = a @ sep @ Join (b # rest) sep"

definition String :: "pathSpec \<Rightarrow> string" where
  "String p = Join p ''/''"

section \<open>Values\<close>

text \<open>
  \<^verbatim>\<open>newValue\<close> inspects its argument by reflection. The model keeps what it inspects:
  whether the argument is a distribution, a function (with the types of its results), a
  pointer (with the type it points to) or anything else, and of a type whether it is
  \<^verbatim>\<open>*time.Time\<close>, \<^verbatim>\<open>time.Time\<close>, or of which kind. \<open>None\<close> is a panic.
  The \<^verbatim>\<open>reflect.Value\<close> that a value holds is not modelled, and a distribution is a
  reference.
\<close>

datatype Type = TypeBool | TypeInt | TypeUint | TypeFloat | TypeString | TypeTime | TypeDist

datatype reflectType =
  TimePtr | TimeStruct | KindBool | KindInt | KindUint | KindFloat | KindString | KindOther

datatype spec =
  DistributionSpec nat
| FuncSpec "reflectType list"
| PointerSpec reflectType
| OtherSpec

record "value" =
  dist :: "nat option"
  valType :: Type
  isValAPointer :: bool
  isfunc :: bool

fun getPrimitiveType :: "reflectType \<Rightarrow> (Type \<times> bool) option" where
  "getPrimitiveType TimePtr = Some (TypeTime, True)"
| "getPrimitiveType TimeStruct = Some (TypeTime, False)"
| "getPrimitiveType KindBool = Some (TypeBool, False)"
| "getPrimitiveType KindInt = Some (TypeInt, False)"
| "getPrimitiveType KindUint = Some (TypeUint, False)"
| "getPrimitiveType KindFloat = Some (TypeFloat, False)"
| "getPrimitiveType KindString = Some (TypeString, False)"
| "getPrimitiveType KindOther = None"

fun newValue :: "spec \<Rightarrow> value option" where
  "newValue (DistributionSpec d) =
     Some \<lparr>dist = Some d, valType = TypeDist, isValAPointer = False, isfunc = False\<rparr>"
| "newValue (FuncSpec outs) =
     (if length outs \<noteq> 1 then None
      else do {
        (t, p) \<leftarrow> getPrimitiveType (outs ! 0);
        Some \<lparr>dist = None, valType = t, isValAPointer = p, isfunc = True\<rparr>
      })"
| "newValue (PointerSpec t) =
     do {
       (t, p) \<leftarrow> getPrimitiveType t;
       Some \<lparr>dist = None, valType = t, isValAPointer = p, isfunc = False\<rparr>
     }"
| "newValue OtherSpec = None"

section \<open>The namespace\<close>

text \<open>
  Directories, list entries and metrics are objects that point to each other. The heap
  holds the objects of each type in a list; a pointer is an index into that list
  (\<open>ref\<close>), \<^verbatim>\<open>nil\<close> is \<open>None\<close>, and a new object is appended. The Go map
  \<^verbatim>\<open>contents\<close> of a directory is an association list with distinct keys: \<open>lookup\<close>
  reads \<^verbatim>\<open>d.contents[name]\<close>, \<open>store\<close> writes it. \<^verbatim>\<open>units.Unit\<close> is declared
  outside of these sources; the registry only stores it. The field
  \<^verbatim>\<open>enclosingListEntry\<close> of a metric is \<open>metricEnclosingListEntry\<close>.
\<close>

type_synonym ref = nat

datatype error = ErrPathInUse

type_synonym Unit = string

record metric =
  Description :: string
  Unit :: Unit
  Value :: "value"
  metricEnclosingListEntry :: "ref option"

record listEntry =
  Name :: string
  Metric :: "ref option"
  Directory :: "ref option"
  parent :: "ref option"

record directory =
  contents :: "(string \<times> ref) list"
  enclosingListEntry :: "ref option"

record heap =
  metrics :: "metric list"
  entries :: "listEntry list"
  dirs :: "directory list"

text \<open>The package variable \<^verbatim>\<open>root = newDirectory()\<close>: the first object of the initial heap.\<close>

definition root :: ref where
  "root = 0"

definition newDirectory :: "heap \<Rightarrow> ref \<times> heap" where
  "newDirectory h =
     (length (dirs h), h\<lparr>dirs := dirs h @ [\<lparr>contents = [], enclosingListEntry = None\<rparr>]\<rparr>)"

definition initial :: heap where
  "initial = snd (newDirectory \<lparr>metrics = [], entries = [], dirs = []\<rparr>)"

definition newListEntry :: "heap \<Rightarrow> listEntry \<Rightarrow> ref \<times> heap" where
  "newListEntry h e = (length (entries h), h\<lparr>entries := entries h @ [e]\<rparr>)"

definition newMetric :: "heap \<Rightarrow> metric \<Rightarrow> ref \<times> heap" where
  "newMetric h m = (length (metrics h), h\<lparr>metrics := metrics h @ [m]\<rparr>)"

definition lookup :: "heap \<Rightarrow> ref \<Rightarrow> string \<Rightarrow> ref option" where
  "lookup h d name = map_of (contents (dirs h ! d)) name"

definition store :: "heap \<Rightarrow> ref \<Rightarrow> string \<Rightarrow> ref \<Rightarrow> heap" where
  "store h d name n =
     h\<lparr>dirs := (dirs h)[d := (dirs h ! d)\<lparr>contents := AList.update name n (contents (dirs h ! d))\<rparr>]\<rparr>"

subsection \<open>Lookups\<close>

fun getDirectory :: "heap \<Rightarrow> ref \<Rightarrow> pathSpec \<Rightarrow> ref option" where
  "getDirectory h d [] = Some d"
| "getDirectory h d (part # path) =
     (case lookup h d part of
        None \<Rightarrow> None
      | Some n \<Rightarrow>
          (case Directory (entries h ! n) of
             None \<Rightarrow> None
           | Some dir \<Rightarrow> getDirectory h dir path))"

definition getDirectoryOrMetric :: "heap \<Rightarrow> ref \<Rightarrow> pathSpec \<Rightarrow> (ref option \<times> ref option) option" where
  "getDirectoryOrMetric h d path =
     (if Empty path then Some (Some d, None)
      else do {
        pd \<leftarrow> Dir path;
        case getDirectory h d pd of
          None \<Rightarrow> Some (None, None)
        | Some dir \<Rightarrow> do {
            pb \<leftarrow> Base path;
            case lookup h dir pb of
              None \<Rightarrow> Some (None, None)
            | Some n \<Rightarrow> Some (Directory (entries h ! n), Metric (entries h ! n))
          }
      })"

text \<open>
  The exported lookups, as calls on a heap: they return the heap they were given.
\<close>

definition GetDirectory :: "heap \<Rightarrow> ref \<Rightarrow> string \<Rightarrow> ref option \<times> heap" where
  "GetDirectory h d relativePath = (getDirectory h d (newPathSpec relativePath), h)"

definition GetMetric :: "heap \<Rightarrow> ref \<Rightarrow> string \<Rightarrow> (ref option \<times> heap) option" where
  "GetMetric h d relativePath =
     do { (_, m) \<leftarrow> getDirectoryOrMetric h d (newPathSpec relativePath); Some (m, h) }"

definition GetDirectoryOrMetric ::
  "heap \<Rightarrow> ref \<Rightarrow> string \<Rightarrow> ((ref option \<times> ref option) \<times> heap) option" where
  "GetDirectoryOrMetric h d relativePath =
     do { r \<leftarrow> getDirectoryOrMetric h d (newPathSpec relativePath); Some (r, h) }"

subsection \<open>Registration\<close>

definition createDirIfNeeded :: "heap \<Rightarrow> ref \<Rightarrow> string \<Rightarrow> (error + ref) \<times> heap" where
  "createDirIfNeeded h d name =
     (case lookup h d name of
        None \<Rightarrow>
          (let (newDir, h) = newDirectory h;
               (newEntry, h) = newListEntry h
                  \<lparr>Name = name, Metric = None, Directory = Some newDir,
                   parent = enclosingListEntry (dirs h ! d)\<rparr>;
               h = h\<lparr>dirs := (dirs h)[newDir := (dirs h ! newDir)\<lparr>enclosingListEntry := Some newEntry\<rparr>]\<rparr>;
               h = store h d name newEntry
           in (Inr newDir, h))
      | Some n \<Rightarrow>
          (case Directory (entries h ! n) of
             Some dir \<Rightarrow> (Inr dir, h)
           | None \<Rightarrow> (Inl ErrPathInUse, h)))"

definition storeMetric :: "heap \<Rightarrow> ref \<Rightarrow> string \<Rightarrow> ref \<Rightarrow> error option \<times> heap" where
  "storeMetric h d name m =
     (case lookup h d name of
        Some n \<Rightarrow> (Some ErrPathInUse, h)
      | None \<Rightarrow>
          (let (newEntry, h) = newListEntry h
                  \<lparr>Name = name, Metric = Some m, Directory = None,
                   parent = enclosingListEntry (dirs h ! d)\<rparr>;
               h = h\<lparr>metrics := (metrics h)[m := (metrics h ! m)\<lparr>metricEnclosingListEntry := Some newEntry\<rparr>]\<rparr>;
               h = store h d name newEntry
           in (None, h)))"

fun registerDirectory :: "heap \<Rightarrow> ref \<Rightarrow> pathSpec \<Rightarrow> (error + ref) \<times> heap" where
  "registerDirectory h d [] = (Inr d, h)"
| "registerDirectory h d (part # path) =
     (case createDirIfNeeded h d part of
        (Inl err, h) \<Rightarrow> (Inl err, h)
      | (Inr result, h) \<Rightarrow> registerDirectory h result path)"

definition registerMetric ::
  "heap \<Rightarrow> ref \<Rightarrow> pathSpec \<Rightarrow> spec \<Rightarrow> Unit \<Rightarrow> string \<Rightarrow> (error option \<times> heap) option" where
  "registerMetric h d path val unit description =
     (if Empty path then Some (Some ErrPathInUse, h)
      else do {
        pd \<leftarrow> Dir path;
        case registerDirectory h d pd of
          (Inl err, h) \<Rightarrow> Some (Some err, h)
        | (Inr current, h) \<Rightarrow> do {
            v \<leftarrow> newValue val;
            let (m, h) = newMetric h
                  \<lparr>Description = description, Unit = unit, Value = v,
                   metricEnclosingListEntry = None\<rparr>;
            pb \<leftarrow> Base path;
            Some (storeMetric h current pb m)
          }
      })"

definition RegisterMetric :: "heap \<Rightarrow> string \<Rightarrow> spec \<Rightarrow> Unit \<Rightarrow> string \<Rightarrow> (error option \<times> heap) option" where
  "RegisterMetric h path m unit description =
     registerMetric h root (newPathSpec path) m unit description"

definition RegisterDirectory :: "heap \<Rightarrow> string \<Rightarrow> (error + ref) \<times> heap" where
  "RegisterDirectory h path = registerDirectory h root (newPathSpec path)"

subsection \<open>Absolute paths\<close>

text \<open>
  \<^verbatim>\<open>pathFrom\<close> follows the \<^verbatim>\<open>parent\<close> pointers; on a heap with a cycle of parents the
  loop does not end (\<open>None\<close>). The second loop of \<^verbatim>\<open>pathFrom\<close> reverses \<open>names\<close> in
  place (\<open>rev\<close>); a \<^verbatim>\<open>nil\<close> path is the empty list.
\<close>

partial_function (option) pathFrom_loop ::
  "heap \<Rightarrow> ref option \<Rightarrow> ref option \<Rightarrow> pathSpec \<Rightarrow> (pathSpec \<times> ref option) option" where
  "pathFrom_loop h current from names =
     (case current of
        None \<Rightarrow> Some (names, current)
      | Some c \<Rightarrow>
          if current \<noteq> from
          then pathFrom_loop h (parent (entries h ! c)) from (names @ [Name (entries h ! c)])
          else Some (names, current))"

declare pathFrom_loop.simps [code]

definition pathFrom :: "heap \<Rightarrow> ref option \<Rightarrow> ref \<Rightarrow> pathSpec option" where
  "pathFrom h n fromDir =
     (let from = enclosingListEntry (dirs h ! fromDir) in
      do {
        (names, current) \<leftarrow> pathFrom_loop h n from [];
        if current \<noteq> from then Some [] else Some (rev names)
      })"

definition absPath :: "heap \<Rightarrow> ref option \<Rightarrow> string option" where
  "absPath h n = do { p \<leftarrow> pathFrom h n root; Some (''/'' @ String p) }"

definition metricAbsPath :: "heap \<Rightarrow> ref \<Rightarrow> string option" where
  "metricAbsPath h m = absPath h (metricEnclosingListEntry (metrics h ! m))"

definition directoryAbsPath :: "heap \<Rightarrow> ref \<Rightarrow> string option" where
  "directoryAbsPath h d = absPath h (enclosingListEntry (dirs h ! d))"

subsection \<open>Listing and traversal\<close>

text \<open>
  \<^verbatim>\<open>sort.Sort(byName(listEntries))\<close> orders the entries by \<^verbatim>\<open>Name\<close>. The names of the
  entries of one directory are distinct, so that the order does not depend on the sorting
  algorithm. \<^verbatim>\<open>List\<close> collects the values of the map in an order that Go leaves open,
  and sorts them.
\<close>

definition sortListEntries :: "heap \<Rightarrow> ref list \<Rightarrow> ref list" where
  "sortListEntries h listEntries = sort_key (\<lambda>n. Name (entries h ! n)) listEntries"

definition List :: "heap \<Rightarrow> ref \<Rightarrow> ref list" where
  "List h d = sortListEntries h (map snd (contents (dirs h ! d)))"

text \<open>
  \<^verbatim>\<open>GetAllMetrics\<close> calls itself on the directories below; \<open>fuel\<close> bounds the depth of
  these calls, and \<open>None\<close> is a traversal that ran out of fuel. The collector is a
  function from its state and the metric to the error it returns (\<open>None\<close> is \<^verbatim>\<open>nil\<close>)
  and its new state.
\<close>

fun GetAllMetrics ::
    "nat \<Rightarrow> heap \<Rightarrow> ('c \<Rightarrow> ref option \<Rightarrow> 'e option \<times> 'c) \<Rightarrow> ref \<Rightarrow> 'c \<Rightarrow> ('e option \<times> 'c) option"
  and GetAllMetrics_loop ::
    "nat \<Rightarrow> heap \<Rightarrow> ('c \<Rightarrow> ref option \<Rightarrow> 'e option \<times> 'c) \<Rightarrow> ref list \<Rightarrow> 'c \<Rightarrow> ('e option \<times> 'c) option"
  where
  "GetAllMetrics 0 h collect d c = None"
| "GetAllMetrics (Suc fuel) h collect d c = GetAllMetrics_loop fuel h collect (List h d) c"
| "GetAllMetrics_loop fuel h collect [] c = Some (None, c)"
| "GetAllMetrics_loop fuel h collect (entry # rest) c =
     (case (case Directory (entries h ! entry) of
              Some dir \<Rightarrow> GetAllMetrics fuel h collect dir c
            | None \<Rightarrow> Some (collect c (Metric (entries h ! entry)))) of
        None \<Rightarrow> None
      | Some (Some err, c) \<Rightarrow> Some (Some err, c)
      | Some (None, c) \<Rightarrow> GetAllMetrics_loop fuel h collect rest c)"

subsection \<open>Well-formed heaps\<close>

text \<open>
  \<open>wf\<close> holds of the initial heap and is kept by every registration: the root has no
  enclosing entry; the keys of a directory are distinct; an entry is stored under its
  name, points to its parent's entry, and is either a directory (allocated after the
  directory that holds it, and pointing back to the entry) or a metric (pointing back to
  the entry). \<open>heap_le h h'\<close>: \<open>h'\<close> extends \<open>h\<close>. \<open>created\<close> and \<open>installed\<close> are the
  heaps after a directory or a metric was added to a directory.
\<close>

definition entry_ok :: "heap \<Rightarrow> ref \<Rightarrow> string \<Rightarrow> ref \<Rightarrow> bool" where
  "entry_ok h d name n \<longleftrightarrow>
     n < length (entries h) \<and> Name (entries h ! n) = name \<and>
     parent (entries h ! n) = enclosingListEntry (dirs h ! d) \<and>
     (case (Directory (entries h ! n), Metric (entries h ! n)) of
        (Some d', None) \<Rightarrow> d < d' \<and> d' < length (dirs h) \<and> enclosingListEntry (dirs h ! d') = Some n
      | (None, Some m) \<Rightarrow> m < length (metrics h) \<and> metricEnclosingListEntry (metrics h ! m) = Some n
      | _ \<Rightarrow> False)"

definition dir_ok :: "heap \<Rightarrow> ref \<Rightarrow> bool" where
  "dir_ok h d \<longleftrightarrow>
     distinct (map fst (contents (dirs h ! d))) \<and>
     (\<forall>(name, n) \<in> set (contents (dirs h ! d)). entry_ok h d name n)"

definition wf :: "heap \<Rightarrow> bool" where
  "wf h \<longleftrightarrow>
     0 < length (dirs h) \<and> enclosingListEntry (dirs h ! root) = None \<and>
     (\<forall>d < length (dirs h). dir_ok h d)"

definition heap_le :: "heap \<Rightarrow> heap \<Rightarrow> bool" where
  "heap_le h h' \<longleftrightarrow>
     length (entries h) \<le> length (entries h') \<and>
     (\<forall>n < length (entries h). entries h' ! n = entries h ! n) \<and>
     length (dirs h) \<le> length (dirs h') \<and>
     (\<forall>d < length (dirs h).
        enclosingListEntry (dirs h' ! d) = enclosingListEntry (dirs h ! d) \<and>
        (\<forall>k n. lookup h d k = Some n \<longrightarrow> lookup h' d k = Some n)) \<and>
     length (metrics h) \<le> length (metrics h')"

definition created :: "heap \<Rightarrow> ref \<Rightarrow> string \<Rightarrow> heap" where
  "created h d name =
     h\<lparr>entries := entries h @
          [\<lparr>Name = name, Metric = None, Directory = Some (length (dirs h)),
            parent = enclosingListEntry (dirs h ! d)\<rparr>],
       dirs := (dirs h @ [\<lparr>contents = [], enclosingListEntry = Some (length (entries h))\<rparr>])
          [d := (dirs h ! d)\<lparr>contents := AList.update name (length (entries h)) (contents (dirs h ! d))\<rparr>]\<rparr>"

definition installed :: "heap \<Rightarrow> ref \<Rightarrow> string \<Rightarrow> metric \<Rightarrow> heap" where
  "installed h d name met =
     h\<lparr>metrics := metrics h @ [met\<lparr>metricEnclosingListEntry := Some (length (entries h))\<rparr>],
       entries := entries h @
          [\<lparr>Name = name, Metric = Some (length (metrics h)), Directory = None,
            parent = enclosingListEntry (dirs h ! d)\<rparr>],
       dirs := (dirs h)
          [d := (dirs h ! d)\<lparr>contents := AList.update name (length (entries h)) (contents (dirs h ! d))\<rparr>]\<rparr>"

subsection \<open>What a traversal is expected to do\<close>

text \<open>
  These three definitions are not code of the program; they state what a traversal has to
  do. \<open>deliver collect c ms\<close> calls the collector on the metrics \<open>ms\<close> one after the other,
  stops at the first error and returns it with the state the collector had reached.
  \<open>leaves fuel h d\<close> lists the metrics below directory \<open>d\<close> with their paths relative to
  \<open>d\<close>, directory by directory in the order of \<^verbatim>\<open>List\<close>, a directory's metrics at the
  place of the directory.
\<close>

fun deliver :: "('c \<Rightarrow> ref option \<Rightarrow> 'e option \<times> 'c) \<Rightarrow> 'c \<Rightarrow> ref list \<Rightarrow> 'e option \<times> 'c" where
  "deliver collect c [] = (None, c)"
| "deliver collect c (m # ms) =
     (case collect c (Some m) of
        (Some err, c') \<Rightarrow> (Some err, c')
      | (None, c') \<Rightarrow> deliver collect c' ms)"

definition leaves_entry :: "(ref \<Rightarrow> (pathSpec \<times> ref) list) \<Rightarrow> heap \<Rightarrow> ref \<Rightarrow> (pathSpec \<times> ref) list" where
  "leaves_entry sub h n =
     (case Directory (entries h ! n) of
        Some dir \<Rightarrow> map (\<lambda>(p, m). (Name (entries h ! n) # p, m)) (sub dir)
      | None \<Rightarrow>
          (case Metric (entries h ! n) of
             Some m \<Rightarrow> [([Name (entries h ! n)], m)]
           | None \<Rightarrow> []))"

fun leaves :: "nat \<Rightarrow> heap \<Rightarrow> ref \<Rightarrow> (pathSpec \<times> ref) list" where
  "leaves 0 h d = []"
| "leaves (Suc fuel) h d = concat (map (leaves_entry (leaves fuel h) h) (List h d))"

section \<open>Properties of distributions\<close>

subsection \<open>Binary search and buckets\<close>








subsection \<open>One call of Add\<close>






subsection \<open>Sequences of Add calls\<close>









subsection \<open>The median\<close>







subsection \<open>Snapshots\<close>




subsection \<open>Evaluating the rounded median\<close>

lemma normalize64_numeral:
  "normalize64 (numeral k) x e =
     (if 2 ^ 53 \<le> x then normalize64 (pred_numeral k) (x / 2) (e + 1)
      else if x < 2 ^ 52 then normalize64 (pred_numeral k) (x * 2) (e - 1)
      else Some (x, e))"
  by (simp add: numeral_eq_Suc)

lemmas round64_eval = round64_def normalize64_numeral roundToEven_def Let_def power_int_minus



lemma example_low:
  "NewArbitraryBucketer [1000] \<bind> (\<lambda>b. Adds (newDistribution b) [200, 300]) =
     Some \<lparr>pieces = [\<lparr>Start = 0, End = 1000, First = True, Last = False\<rparr>,
                      \<lparr>Start = 1000, End = 0, First = False, Last = True\<rparr>],
            counts = [2, 0], total = 500, min_val = 200, max_val = 300, count = 2\<rparr>"
  by code_simp

lemma example_high:
  "NewArbitraryBucketer [1000] \<bind> (\<lambda>b. Adds (newDistribution b) [3000, 3000, 7000]) =
     Some \<lparr>pieces = [\<lparr>Start = 0, End = 1000, First = True, Last = False\<rparr>,
                      \<lparr>Start = 1000, End = 0, First = False, Last = True\<rparr>],
            counts = [0, 3], total = 13000, min_val = 3000, max_val = 7000, count = 3\<rparr>"
  by code_simp

lemma example_low_median64:
  "calculateMedian64 \<lparr>pieces = [\<lparr>Start = 0, End = 1000, First = True, Last = False\<rparr>,
                      \<lparr>Start = 1000, End = 0, First = False, Last = True\<rparr>],
            counts = [2, 0], total = 500, min_val = 200, max_val = 300, count = 2\<rparr> = Some 250"
  by (simp add: calculateMedian64_def valueIndexToPiece64_def valueIndexToPiece64_loop.simps index_def
      interpolate64_def round64_eval)

lemma example_high_median64:
  "calculateMedian64 \<lparr>pieces = [\<lparr>Start = 0, End = 1000, First = True, Last = False\<rparr>,
                      \<lparr>Start = 1000, End = 0, First = False, Last = True\<rparr>],
            counts = [0, 3], total = 13000, min_val = 3000, max_val = 7000, count = 3\<rparr> = Some 5000"
  by (simp add: calculateMedian64_def valueIndexToPiece64_def valueIndexToPiece64_loop.simps index_def
      interpolate64_def round64_eval)

section \<open>Properties of the namespace\<close>

subsection \<open>Well-formed heaps\<close>

lemma wf_root: "wf initial"
  by (simp add: wf_def initial_def newDirectory_def root_def dir_ok_def)

lemma heap_le_refl: "heap_le h h"
  by (simp add: heap_le_def)

lemma heap_le_trans: "heap_le h1 h2 \<Longrightarrow> heap_le h2 h3 \<Longrightarrow> heap_le h1 h3"
  unfolding heap_le_def by (auto; metis (no_types) less_le_trans)+

lemma wf_lookup:
  assumes "wf h" "d < length (dirs h)" "lookup h d name = Some n"
  shows "entry_ok h d name n"
proof -
  have "(name, n) \<in> set (contents (dirs h ! d))"
    using assms(3) by (auto simp: lookup_def dest: map_of_SomeD)
  then show ?thesis using assms(1,2) by (auto simp: wf_def dir_ok_def)
qed

lemma entry_ok_cases:
  assumes "entry_ok h d name n"
  obtains (dir) d' where "Directory (entries h ! n) = Some d'" "Metric (entries h ! n) = None"
      "d < d'" "d' < length (dirs h)" "enclosingListEntry (dirs h ! d') = Some n"
  | (metric) m where "Directory (entries h ! n) = None" "Metric (entries h ! n) = Some m"
      "m < length (metrics h)" "metricEnclosingListEntry (metrics h ! m) = Some n"
  using assms by (auto simp: entry_ok_def split: option.splits)

lemma createDirIfNeeded_dir:
  "lookup h d name = Some n \<Longrightarrow> Directory (entries h ! n) = Some dir \<Longrightarrow>
   createDirIfNeeded h d name = (Inr dir, h)"
  by (simp add: createDirIfNeeded_def)

lemma createDirIfNeeded_metric:
  "lookup h d name = Some n \<Longrightarrow> Directory (entries h ! n) = None \<Longrightarrow>
   createDirIfNeeded h d name = (Inl ErrPathInUse, h)"
  by (simp add: createDirIfNeeded_def)

lemma createDirIfNeeded_new:
  "lookup h d name = None \<Longrightarrow> d < length (dirs h) \<Longrightarrow>
   createDirIfNeeded h d name = (Inr (length (dirs h)), created h d name)"
  by (simp add: createDirIfNeeded_def newDirectory_def newListEntry_def store_def created_def
      nth_append list_update_append)

subsection \<open>Creating a directory\<close>

lemma created_simps:
  assumes "d < length (dirs h)"
  shows "length (dirs (created h d name)) = Suc (length (dirs h))"
    and "length (entries (created h d name)) = Suc (length (entries h))"
    and "metrics (created h d name) = metrics h"
    and "\<And>n. n < length (entries h) \<Longrightarrow> entries (created h d name) ! n = entries h ! n"
    and "entries (created h d name) ! length (entries h) =
          \<lparr>Name = name, Metric = None, Directory = Some (length (dirs h)),
            parent = enclosingListEntry (dirs h ! d)\<rparr>"
    and "\<And>d'. d' < length (dirs h) \<Longrightarrow> d' \<noteq> d \<Longrightarrow> dirs (created h d name) ! d' = dirs h ! d'"
    and "dirs (created h d name) ! d =
          (dirs h ! d)\<lparr>contents := AList.update name (length (entries h)) (contents (dirs h ! d))\<rparr>"
    and "dirs (created h d name) ! length (dirs h) =
          \<lparr>contents = [], enclosingListEntry = Some (length (entries h))\<rparr>"
  using assms by (simp_all add: created_def nth_append)

lemma created_enclosing:
  assumes "d < length (dirs h)" "d' < length (dirs h)"
  shows "enclosingListEntry (dirs (created h d name) ! d') = enclosingListEntry (dirs h ! d')"
  using assms created_simps(6,7)[OF assms(1)] by (cases "d' = d") auto

lemma created_lookup:
  assumes "d < length (dirs h)" "d' < length (dirs h)"
  shows "lookup (created h d name) d' k =
      (if d' = d \<and> k = name then Some (length (entries h)) else lookup h d' k)"
  using assms created_simps(6,7)[OF assms(1)]
  by (cases "d' = d") (auto simp: lookup_def update_conv')

lemma created_lookup_new:
  assumes "d < length (dirs h)"
  shows "lookup (created h d name) (length (dirs h)) k = None"
  using created_simps(8)[OF assms] by (simp add: lookup_def)

lemma heap_le_created:
  assumes "d < length (dirs h)" "lookup h d name = None"
  shows "heap_le h (created h d name)"
  unfolding heap_le_def
  using assms created_simps(1-4)[OF assms(1)] created_enclosing[OF assms(1)]
    created_lookup[OF assms(1)]
  by auto

lemma entry_ok_created:
  assumes d: "d < length (dirs h)" and d0: "d0 < length (dirs h)" and ok: "entry_ok h d0 k n"
  shows "entry_ok (created h d name) d0 k n"
proof -
  have n: "n < length (entries h)" using ok by (simp add: entry_ok_def)
  note S = created_simps[OF d]
  from ok show ?thesis
  proof (cases rule: entry_ok_cases)
    case (dir d')
    then show ?thesis
      using ok n d0 S(1,2,4) created_enclosing[OF d]
      by (simp add: entry_ok_def)
  next
    case (metric m)
    then show ?thesis
      using ok n d0 S(1,2,3,4) created_enclosing[OF d]
      by (simp add: entry_ok_def)
  qed
qed

lemma wf_created:
  assumes wf: "wf h" and d: "d < length (dirs h)" and new: "lookup h d name = None"
  shows "wf (created h d name)"
proof -
  note S = created_simps[OF d, where name = name]
  let ?h = "created h d name"
  have root: "enclosingListEntry (dirs ?h ! root) = None"
    using wf created_enclosing[OF d, where d' = root] by (simp add: wf_def root_def)
  have "dir_ok ?h d'" if d': "d' < length (dirs ?h)" for d'
  proof -
    consider "d' = length (dirs h)" | "d' < length (dirs h)" "d' \<noteq> d" | "d' = d"
      using d' S(1) by linarith
    then show ?thesis
    proof cases
      case 1
      then show ?thesis using S(8) by (simp add: dir_ok_def)
    next
      case 2
      then have old: "dir_ok h d'" using wf by (simp add: wf_def)
      have "dirs ?h ! d' = dirs h ! d'" using 2 S(6) by simp
      then show ?thesis
        using old entry_ok_created[OF d 2(1)] by (auto simp: dir_ok_def)
    next
      case 3
      have old: "dir_ok h d" using wf d by (simp add: wf_def)
      then have dist: "distinct (map fst (contents (dirs h ! d)))" by (simp add: dir_ok_def)
      let ?cs = "AList.update name (length (entries h)) (contents (dirs h ! d))"
      have dist': "distinct (map fst ?cs)" using dist by (rule distinct_update)
      have "entry_ok ?h d k n" if "(k, n) \<in> set ?cs" for k n
      proof -
        from that dist' have "map_of ?cs k = Some n" by simp
        then have kn: "((map_of (contents (dirs h ! d)))(name \<mapsto> length (entries h))) k = Some n"
          by (simp add: update_conv')
        show ?thesis
        proof (cases "k = name")
          case True
          then have "n = length (entries h)" using kn by simp
          then show ?thesis
            using True S(1,2,5,8) created_enclosing[OF d d] d
            by (simp add: entry_ok_def)
        next
          case False
          then have "(k, n) \<in> set (contents (dirs h ! d))" using kn by (auto dest: map_of_SomeD)
          then have "entry_ok h d k n" using old by (auto simp: dir_ok_def)
          then show ?thesis by (rule entry_ok_created[OF d d])
        qed
      qed
      then show ?thesis using 3 dist' S(7) by (auto simp: dir_ok_def)
    qed
  qed
  then show ?thesis using root S(1) by (simp add: wf_def)
qed

subsection \<open>Installing a metric, and lookups\<close>

lemma storeMetric_new:
  "lookup h d name = None \<Longrightarrow>
   storeMetric (snd (newMetric h met)) d name (length (metrics h)) = (None, installed h d name met)"
  by (simp add: storeMetric_def newMetric_def newListEntry_def store_def installed_def lookup_def)

lemma storeMetric_bound:
  "lookup h d name = Some n \<Longrightarrow>
   storeMetric (snd (newMetric h met)) d name m = (Some ErrPathInUse, snd (newMetric h met))"
  by (simp add: storeMetric_def newMetric_def lookup_def)

lemma installed_simps:
  assumes "d < length (dirs h)"
  shows "length (dirs (installed h d name met)) = length (dirs h)"
    and "length (entries (installed h d name met)) = Suc (length (entries h))"
    and "length (metrics (installed h d name met)) = Suc (length (metrics h))"
    and "\<And>m. m < length (metrics h) \<Longrightarrow> metrics (installed h d name met) ! m = metrics h ! m"
    and "metrics (installed h d name met) ! length (metrics h) =
          met\<lparr>metricEnclosingListEntry := Some (length (entries h))\<rparr>"
    and "\<And>n. n < length (entries h) \<Longrightarrow> entries (installed h d name met) ! n = entries h ! n"
    and "entries (installed h d name met) ! length (entries h) =
          \<lparr>Name = name, Metric = Some (length (metrics h)), Directory = None,
            parent = enclosingListEntry (dirs h ! d)\<rparr>"
    and "\<And>d'. d' \<noteq> d \<Longrightarrow> dirs (installed h d name met) ! d' = dirs h ! d'"
    and "dirs (installed h d name met) ! d =
          (dirs h ! d)\<lparr>contents := AList.update name (length (entries h)) (contents (dirs h ! d))\<rparr>"
  using assms by (simp_all add: installed_def nth_append)

lemma installed_enclosing:
  assumes "d < length (dirs h)"
  shows "enclosingListEntry (dirs (installed h d name met) ! d') = enclosingListEntry (dirs h ! d')"
  using installed_simps(8,9)[OF assms] by (cases "d' = d") auto

lemma installed_lookup:
  assumes "d < length (dirs h)"
  shows "lookup (installed h d name met) d' k =
      (if d' = d \<and> k = name then Some (length (entries h)) else lookup h d' k)"
  using installed_simps(8,9)[OF assms]
  by (cases "d' = d") (auto simp: lookup_def update_conv')

lemma heap_le_installed:
  assumes "d < length (dirs h)" "lookup h d name = None"
  shows "heap_le h (installed h d name met)"
  unfolding heap_le_def
  using assms installed_simps(1-3,6)[OF assms(1)] installed_enclosing[OF assms(1)]
    installed_lookup[OF assms(1)]
  by auto

lemma entry_ok_installed:
  assumes d: "d < length (dirs h)" and ok: "entry_ok h d0 k n"
  shows "entry_ok (installed h d name met) d0 k n"
proof -
  have n: "n < length (entries h)" using ok by (simp add: entry_ok_def)
  note S = installed_simps[OF d, where name = name and met = met]
  from ok show ?thesis
  proof (cases rule: entry_ok_cases)
    case (dir d')
    then show ?thesis
      using ok n S(1,2,6) installed_enclosing[OF d] by (simp add: entry_ok_def)
  next
    case (metric m)
    then show ?thesis
      using ok n S(1,2,3,4,6) installed_enclosing[OF d] by (simp add: entry_ok_def)
  qed
qed

lemma wf_installed:
  assumes wf: "wf h" and d: "d < length (dirs h)" and new: "lookup h d name = None"
  shows "wf (installed h d name met)"
proof -
  note S = installed_simps[OF d, where name = name and met = met]
  let ?h = "installed h d name met"
  have root: "enclosingListEntry (dirs ?h ! root) = None"
    using wf installed_enclosing[OF d, where d' = root] by (simp add: wf_def root_def)
  have "dir_ok ?h d'" if d': "d' < length (dirs ?h)" for d'
  proof (cases "d' = d")
    case False
    then have old: "dir_ok h d'" using wf d' S(1) by (simp add: wf_def)
    have "dirs ?h ! d' = dirs h ! d'" using False S(8) by simp
    then show ?thesis
      using old entry_ok_installed[OF d] by (auto simp: dir_ok_def)
  next
    case True
    have old: "dir_ok h d" using wf d by (simp add: wf_def)
    then have dist: "distinct (map fst (contents (dirs h ! d)))" by (simp add: dir_ok_def)
    let ?cs = "AList.update name (length (entries h)) (contents (dirs h ! d))"
    have dist': "distinct (map fst ?cs)" using dist by (rule distinct_update)
    have "entry_ok ?h d k n" if "(k, n) \<in> set ?cs" for k n
    proof -
      from that dist' have "map_of ?cs k = Some n" by simp
      then have kn: "((map_of (contents (dirs h ! d)))(name \<mapsto> length (entries h))) k = Some n"
        by (simp add: update_conv')
      show ?thesis
      proof (cases "k = name")
        case True
        then have "n = length (entries h)" using kn by simp
        then show ?thesis
          using True S(2,3,5,7) installed_enclosing[OF d, where d' = d] d
          by (simp add: entry_ok_def)
      next
        case False
        then have "(k, n) \<in> set (contents (dirs h ! d))" using kn by (auto dest: map_of_SomeD)
        then have "entry_ok h d k n" using old by (auto simp: dir_ok_def)
        then show ?thesis by (rule entry_ok_installed[OF d])
      qed
    qed
    then show ?thesis using True dist' S(9) by (auto simp: dir_ok_def)
  qed
  then show ?thesis using root S(1) d by (auto simp: wf_def)
qed

lemma getDirectory_append:
  "getDirectory h d (p @ q) = (case getDirectory h d p of None \<Rightarrow> None | Some r \<Rightarrow> getDirectory h r q)"
  by (induction p arbitrary: d) (auto split: option.splits)

lemma getDirectory_valid:
  "wf h \<Longrightarrow> d < length (dirs h) \<Longrightarrow> getDirectory h d p = Some r \<Longrightarrow> r < length (dirs h)"
proof (induction p arbitrary: d)
  case Nil
  then show ?case by simp
next
  case (Cons s p)
  from Cons.prems(3) obtain n d1 where n: "lookup h d s = Some n" "Directory (entries h ! n) = Some d1"
    "getDirectory h d1 p = Some r" by (auto split: option.splits)
  from wf_lookup[OF Cons.prems(1,2) n(1)] n(2) have "d1 < length (dirs h)"
    by (auto elim: entry_ok_cases)
  from Cons.IH[OF Cons.prems(1) this n(3)] show ?case .
qed

lemma getDirectory_mono:
  "wf h \<Longrightarrow> heap_le h h' \<Longrightarrow> d < length (dirs h) \<Longrightarrow> getDirectory h d p = Some r \<Longrightarrow>
   getDirectory h' d p = Some r"
proof (induction p arbitrary: d)
  case Nil
  then show ?case by simp
next
  case (Cons s p)
  from Cons.prems(4) obtain n d1 where n: "lookup h d s = Some n" "Directory (entries h ! n) = Some d1"
    "getDirectory h d1 p = Some r" by (auto split: option.splits)
  have ok: "entry_ok h d s n" by (rule wf_lookup[OF Cons.prems(1,3) n(1)])
  have d1: "d1 < length (dirs h)" using ok n(2) by (auto elim: entry_ok_cases)
  have nn: "n < length (entries h)" using ok by (simp add: entry_ok_def)
  have "lookup h' d s = Some n" "entries h' ! n = entries h ! n"
    using Cons.prems(2,3) n(1) nn by (auto simp: heap_le_def)
  with Cons.IH[OF Cons.prems(1,2) d1 n(3)] n(2) show ?case by simp
qed

lemma Dir_Base_simps [simp]:
  "Dir (p @ [s]) = Some p" "Base (p @ [s]) = Some s" "Empty p \<longleftrightarrow> p = []"
  "Dir (a # p) = Some (butlast (a # p))" "Base (a # p) = Some (last (a # p))"
  by (simp_all add: Dir_def Base_def Empty_def butlast_conv_take last_conv_nth)

lemma getDirectoryOrMetric_snoc:
  "getDirectoryOrMetric h d (p @ [s]) =
     (case getDirectory h d p of
        None \<Rightarrow> Some (None, None)
      | Some dir \<Rightarrow>
          (case lookup h dir s of
             None \<Rightarrow> Some (None, None)
           | Some n \<Rightarrow> Some (Directory (entries h ! n), Metric (entries h ! n))))"
  by (simp add: getDirectoryOrMetric_def split: option.splits)

lemma getDirectoryOrMetric_Nil [simp]: "getDirectoryOrMetric h d [] = Some (Some d, None)"
  by (simp add: getDirectoryOrMetric_def)

lemma getDirectoryOrMetric_total: "\<exists>r. getDirectoryOrMetric h d p = Some r"
  by (cases p rule: rev_cases) (auto simp: getDirectoryOrMetric_snoc split: option.splits)

lemma getDirectoryOrMetric_Cons:
  assumes "q \<noteq> []" "lookup h d s = Some n" "Directory (entries h ! n) = Some d1"
  shows "getDirectoryOrMetric h d (s # q) = getDirectoryOrMetric h d1 q"
proof -
  from assms(1) obtain q' t where q: "q = q' @ [t]" by (cases q rule: rev_cases) auto
  have "getDirectoryOrMetric h d ((s # q') @ [t]) = getDirectoryOrMetric h d1 (q' @ [t])"
    unfolding getDirectoryOrMetric_snoc using assms(2,3) by simp
  then show ?thesis by (simp add: q)
qed

lemma getDirectoryOrMetric_Cons_None:
  assumes "lookup h d s = None \<or> (\<exists>n. lookup h d s = Some n \<and> Directory (entries h ! n) = None)" "q \<noteq> []"
  shows "getDirectoryOrMetric h d (s # q) = Some (None, None)"
proof -
  from assms(2) obtain q' t where q: "q = q' @ [t]" by (cases q rule: rev_cases) auto
  have "getDirectoryOrMetric h d ((s # q') @ [t]) = Some (None, None)"
    unfolding getDirectoryOrMetric_snoc using assms(1) by auto
  then show ?thesis by (simp add: q)
qed

subsection \<open>registerDirectory\<close>

lemma createDirIfNeeded_cases:
  assumes "wf h" "d < length (dirs h)"
  obtains (new) "lookup h d s = None"
      "createDirIfNeeded h d s = (Inr (length (dirs h)), created h d s)"
  | (dir) n d1 where "lookup h d s = Some n" "Directory (entries h ! n) = Some d1"
      "Metric (entries h ! n) = None" "d1 < length (dirs h)"
      "createDirIfNeeded h d s = (Inr d1, h)"
  | (metric) n m where "lookup h d s = Some n" "Directory (entries h ! n) = None"
      "Metric (entries h ! n) = Some m"
      "createDirIfNeeded h d s = (Inl ErrPathInUse, h)"
proof (cases "lookup h d s")
  case None
  with createDirIfNeeded_new[OF None assms(2)] new show ?thesis by blast
next
  case (Some n)
  from wf_lookup[OF assms Some] show ?thesis
  proof (cases rule: entry_ok_cases)
    case (dir d')
    with createDirIfNeeded_dir[OF Some dir(1)] Some show ?thesis using that(2) by blast
  next
    case (metric m)
    with createDirIfNeeded_metric[OF Some metric(1)] Some show ?thesis using that(3) by blast
  qed
qed

lemma registerDirectory_existing:
  "getDirectory h d p = Some r \<Longrightarrow> registerDirectory h d p = (Inr r, h)"
  by (induction p arbitrary: d) (auto simp: createDirIfNeeded_def split: option.splits)

lemma registerDirectory_fresh:
  "wf h \<Longrightarrow> d < length (dirs h) \<Longrightarrow> contents (dirs h ! d) = [] \<Longrightarrow>
   \<exists>r h'. registerDirectory h d p = (Inr r, h') \<and> contents (dirs h' ! r) = []"
proof (induction p arbitrary: h d)
  case Nil
  then show ?case by simp
next
  case (Cons s p)
  have none: "lookup h d s = None" using Cons.prems(3) by (simp add: lookup_def)
  note c = createDirIfNeeded_new[OF none Cons.prems(2)]
  have "wf (created h d s)" by (rule wf_created[OF Cons.prems(1,2) none])
  moreover have "length (dirs h) < length (dirs (created h d s))"
    using created_simps(1)[OF Cons.prems(2)] by simp
  moreover have "contents (dirs (created h d s) ! length (dirs h)) = []"
    using created_simps(8)[OF Cons.prems(2)] by simp
  ultimately obtain r h' where "registerDirectory (created h d s) (length (dirs h)) p = (Inr r, h')"
    "contents (dirs h' ! r) = []" using Cons.IH by blast
  then show ?case using c by simp
qed

lemma registerDirectory_success:
  "wf h \<Longrightarrow> d < length (dirs h) \<Longrightarrow> registerDirectory h d p = (Inr r, h') \<Longrightarrow>
   wf h' \<and> heap_le h h' \<and> r < length (dirs h') \<and> getDirectory h' d p = Some r \<and>
   metrics h' = metrics h \<and>
   (getDirectory h d p = None \<longrightarrow> contents (dirs h' ! r) = [])"
proof (induction p arbitrary: h d)
  case Nil
  then show ?case by (simp add: heap_le_refl)
next
  case (Cons s p)
  from Cons.prems(1,2) show ?case
  proof (cases rule: createDirIfNeeded_cases[where s = s])
    case new
    let ?h1 = "created h d s" and ?d1 = "length (dirs h)"
    have wf1: "wf ?h1" by (rule wf_created[OF Cons.prems(1,2) new(1)])
    have d1: "?d1 < length (dirs ?h1)" using created_simps(1)[OF Cons.prems(2)] by simp
    have le1: "heap_le h ?h1" by (rule heap_le_created[OF Cons.prems(2) new(1)])
    have reg: "registerDirectory ?h1 ?d1 p = (Inr r, h')" using Cons.prems(3) new(2) by simp
    from Cons.IH[OF wf1 d1 reg] have IH: "wf h'" "heap_le ?h1 h'" "r < length (dirs h')"
      "getDirectory h' ?d1 p = Some r" "metrics h' = metrics ?h1" by auto
    have empty: "contents (dirs ?h1 ! ?d1) = []" using created_simps(8)[OF Cons.prems(2)] by simp
    from registerDirectory_fresh[OF wf1 d1 empty, of p] reg have e': "contents (dirs h' ! r) = []" by auto
    have l1: "lookup ?h1 d s = Some (length (entries h))"
      using created_lookup[OF Cons.prems(2,2)] by simp
    have dlt: "d < length (dirs ?h1)" using d1 Cons.prems(2) by simp
    have "lookup h' d s = Some (length (entries h))"
      using IH(2) l1 dlt by (auto simp: heap_le_def)
    moreover have "entries h' ! length (entries h) = entries ?h1 ! length (entries h)"
      using IH(2) created_simps(2)[OF Cons.prems(2)] by (auto simp: heap_le_def)
    ultimately have "getDirectory h' d (s # p) = Some r"
      using IH(4) created_simps(5)[OF Cons.prems(2)] by simp
    then show ?thesis
      using IH(1,3,5) heap_le_trans[OF le1 IH(2)] e' created_simps(3)[OF Cons.prems(2)] by simp
  next
    case (dir n d1)
    have reg: "registerDirectory h d1 p = (Inr r, h')" using Cons.prems(3) dir(5) by simp
    from Cons.IH[OF Cons.prems(1) dir(4) reg] have IH: "wf h'" "heap_le h h'" "r < length (dirs h')"
      "getDirectory h' d1 p = Some r" "metrics h' = metrics h"
      "getDirectory h d1 p = None \<longrightarrow> contents (dirs h' ! r) = []" by auto
    have nn: "n < length (entries h)" using wf_lookup[OF Cons.prems(1,2) dir(1)] by (simp add: entry_ok_def)
    have "lookup h' d s = Some n" "entries h' ! n = entries h ! n"
      using IH(2) dir(1) Cons.prems(2) nn by (auto simp: heap_le_def)
    then have "getDirectory h' d (s # p) = Some r" using IH(4) dir(2) by simp
    then show ?thesis using IH dir(1,2) by simp
  next
    case (metric n m)
    then show ?thesis using Cons.prems(3) by simp
  qed
qed

lemma registerDirectory_failure:
  "wf h \<Longrightarrow> d < length (dirs h) \<Longrightarrow> registerDirectory h d p = (Inl e, h') \<Longrightarrow>
   h' = h \<and> e = ErrPathInUse \<and>
   (\<exists>q m. q \<noteq> [] \<and> prefix q p \<and> getDirectoryOrMetric h d q = Some (None, Some m))"
proof (induction p arbitrary: d)
  case Nil
  then show ?case by simp
next
  case (Cons s p)
  from Cons.prems(1,2) show ?case
  proof (cases rule: createDirIfNeeded_cases[where s = s])
    case new
    let ?h1 = "created h d s" and ?d1 = "length (dirs h)"
    have wf1: "wf ?h1" by (rule wf_created[OF Cons.prems(1,2) new(1)])
    have d1: "?d1 < length (dirs ?h1)" using created_simps(1)[OF Cons.prems(2)] by simp
    have empty: "contents (dirs ?h1 ! ?d1) = []" using created_simps(8)[OF Cons.prems(2)] by simp
    from registerDirectory_fresh[OF wf1 d1 empty, of p] obtain r0 h0 where
      "registerDirectory ?h1 ?d1 p = (Inr r0, h0)" by blast
    then have False using Cons.prems(3) new(2) by simp
    then show ?thesis ..
  next
    case (dir n d1)
    have reg: "registerDirectory h d1 p = (Inl e, h')" using Cons.prems(3) dir(5) by simp
    from Cons.IH[OF Cons.prems(1) dir(4) reg] obtain q m where q: "h' = h" "e = ErrPathInUse"
      "q \<noteq> []" "prefix q p" "getDirectoryOrMetric h d1 q = Some (None, Some m)" by auto
    have "getDirectoryOrMetric h d (s # q) = Some (None, Some m)"
      using getDirectoryOrMetric_Cons[OF q(3) dir(1,2)] q(5) by simp
    then have "\<exists>q m. q \<noteq> [] \<and> prefix q (s # p) \<and> getDirectoryOrMetric h d q = Some (None, Some m)"
      using q(4) by (intro exI[of _ "s # q"] exI[of _ m]) simp
    then show ?thesis using q(1,2) by simp
  next
    case (metric n m)
    have "getDirectoryOrMetric h d [s] = Some (None, Some m)"
      using getDirectoryOrMetric_snoc[of h d "[]" s] metric(1-3) by simp
    then have "\<exists>q m. q \<noteq> [] \<and> prefix q (s # p) \<and> getDirectoryOrMetric h d q = Some (None, Some m)"
      by (intro exI[of _ "[s]"] exI[of _ m]) simp
    moreover have "h' = h" "e = ErrPathInUse" using Cons.prems(3) metric(4) by simp_all
    ultimately show ?thesis by simp
  qed
qed

lemma registerDirectory_metric_on_walk:
  "wf h \<Longrightarrow> d < length (dirs h) \<Longrightarrow> q \<noteq> [] \<Longrightarrow> prefix q p \<Longrightarrow>
   getDirectoryOrMetric h d q = Some (None, Some m) \<Longrightarrow>
   registerDirectory h d p = (Inl ErrPathInUse, h)"
proof (induction p arbitrary: d q)
  case Nil
  then show ?case by simp
next
  case (Cons s p)
  from Cons.prems(3,4) obtain q' where q: "q = s # q'" "prefix q' p" by (cases q) auto
  from Cons.prems(1,2) show ?case
  proof (cases rule: createDirIfNeeded_cases[where s = s])
    case new
    have "getDirectoryOrMetric h d (s # q') = Some (None, None)"
    proof (cases "q' = []")
      case True
      have "getDirectoryOrMetric h d [s] = Some (None, None)"
        using getDirectoryOrMetric_snoc[of h d "[]" s] new(1) by simp
      then show ?thesis using True by simp
    next
      case False
      then show ?thesis using getDirectoryOrMetric_Cons_None[of h d s q'] new(1) by simp
    qed
    then show ?thesis using Cons.prems(5) q(1) by simp
  next
    case (dir n d1)
    have "q' \<noteq> []"
    proof
      assume "q' = []"
      then have "getDirectoryOrMetric h d q = getDirectoryOrMetric h d [s]" using q(1) by simp
      also have "\<dots> = Some (Some d1, None)"
        using getDirectoryOrMetric_snoc[of h d "[]" s] dir(1-3) by simp
      finally show False using Cons.prems(5) by simp
    qed
    then have "getDirectoryOrMetric h d1 q' = Some (None, Some m)"
      using getDirectoryOrMetric_Cons[OF _ dir(1,2), of q'] Cons.prems(5) q(1) by simp
    from Cons.IH[OF Cons.prems(1) dir(4) \<open>q' \<noteq> []\<close> q(2) this] show ?thesis using dir(5) by simp
  next
    case (metric n m')
    then show ?thesis by simp
  qed
qed

subsection \<open>registerMetric\<close>

lemma getDirectoryOrMetric_mono:
  assumes "wf h" "heap_le h h'" "d < length (dirs h)"
    and "getDirectoryOrMetric h d q = Some r" "r \<noteq> (None, None)"
  shows "getDirectoryOrMetric h' d q = Some r"
proof (cases q rule: rev_cases)
  case Nil
  then show ?thesis using assms(4) by simp
next
  case (snoc p s)
  from assms(4,5) obtain dir n where dn: "getDirectory h d p = Some dir" "lookup h dir s = Some n"
    "r = (Directory (entries h ! n), Metric (entries h ! n))"
    unfolding snoc getDirectoryOrMetric_snoc by (auto split: option.splits)
  have dir: "dir < length (dirs h)" by (rule getDirectory_valid[OF assms(1,3) dn(1)])
  have nn: "n < length (entries h)" using wf_lookup[OF assms(1) dir dn(2)] by (simp add: entry_ok_def)
  have "getDirectory h' d p = Some dir" by (rule getDirectory_mono[OF assms(1,2,3) dn(1)])
  moreover have "lookup h' dir s = Some n" "entries h' ! n = entries h ! n"
    using assms(2) dir dn(2) nn by (auto simp: heap_le_def)
  ultimately show ?thesis unfolding snoc getDirectoryOrMetric_snoc using dn(3) by simp
qed

lemma registerMetric_Nil: "registerMetric h d [] val unit description = Some (Some ErrPathInUse, h)"
  by (simp add: registerMetric_def)

lemma registerMetric_snoc:
  "registerMetric h d (p @ [s]) val unit description =
     (case registerDirectory h d p of
        (Inl err, h1) \<Rightarrow> Some (Some err, h1)
      | (Inr current, h1) \<Rightarrow>
          (case newValue val of
             None \<Rightarrow> None
           | Some v \<Rightarrow>
               Some (storeMetric
                 (snd (newMetric h1 \<lparr>Description = description, Unit = unit, Value = v,
                        metricEnclosingListEntry = None\<rparr>))
                 current s (length (metrics h1)))))"
  by (simp add: registerMetric_def newMetric_def split: prod.splits sum.splits option.splits)

lemma entry_ok_newMetric:
  assumes "entry_ok h d k n"
  shows "entry_ok (snd (newMetric h met)) d k n"
  using assms
proof (cases rule: entry_ok_cases)
  case (dir d')
  then show ?thesis using assms by (simp add: entry_ok_def newMetric_def)
next
  case (metric m)
  then show ?thesis using assms by (simp add: entry_ok_def newMetric_def nth_append)
qed

lemma wf_newMetric:
  assumes "wf h"
  shows "wf (snd (newMetric h met))"
proof -
  have "dirs (snd (newMetric h met)) = dirs h" by (simp add: newMetric_def)
  then show ?thesis
    using assms entry_ok_newMetric[of h _ _ _ met] by (fastforce simp: wf_def dir_ok_def)
qed

lemma registerMetric_outcomes:
  assumes wf: "wf h" and d: "d < length (dirs h)" and v: "newValue val = Some v"
  obtains
    (ancestor) q m where "q \<noteq> []" "prefix q p" "getDirectoryOrMetric h d q = Some (None, Some m)"
      "registerMetric h d (p @ [s]) val unit description = Some (Some ErrPathInUse, h)"
  | (bound) r where "getDirectoryOrMetric h d (p @ [s]) = Some r" "r \<noteq> (None, None)"
      "\<And>q m. q \<noteq> [] \<Longrightarrow> prefix q p \<Longrightarrow> getDirectoryOrMetric h d q \<noteq> Some (None, Some m)"
      "registerMetric h d (p @ [s]) val unit description =
        Some (Some ErrPathInUse,
          snd (newMetric h \<lparr>Description = description, Unit = unit, Value = v,
                 metricEnclosingListEntry = None\<rparr>))"
  | (success) h1 current where "getDirectoryOrMetric h d (p @ [s]) = Some (None, None)"
      "\<And>q m. q \<noteq> [] \<Longrightarrow> prefix q p \<Longrightarrow> getDirectoryOrMetric h d q \<noteq> Some (None, Some m)"
      "wf h1" "heap_le h h1" "current < length (dirs h1)" "getDirectory h1 d p = Some current"
      "metrics h1 = metrics h" "lookup h1 current s = None"
      "registerMetric h d (p @ [s]) val unit description =
        Some (None, installed h1 current s
          \<lparr>Description = description, Unit = unit, Value = v, metricEnclosingListEntry = None\<rparr>)"
proof (cases "registerDirectory h d p")
  case (Pair res h1)
  show ?thesis
  proof (cases res)
    case (Inl e)
    from registerDirectory_failure[OF wf d Pair[unfolded Inl]] obtain q m where
      q: "h1 = h" "e = ErrPathInUse" "q \<noteq> []" "prefix q p"
        "getDirectoryOrMetric h d q = Some (None, Some m)" by auto
    have "registerMetric h d (p @ [s]) val unit description = Some (Some ErrPathInUse, h)"
      unfolding registerMetric_snoc using Pair Inl q(1,2) by simp
    with q(3-5) show ?thesis by (rule ancestor)
  next
    case (Inr current)
    note reg = Pair[unfolded Inr]
    from registerDirectory_success[OF wf d reg] have S: "wf h1" "heap_le h h1"
      "current < length (dirs h1)" "getDirectory h1 d p = Some current" "metrics h1 = metrics h"
      "getDirectory h d p = None \<longrightarrow> contents (dirs h1 ! current) = []" by auto
    have nometric: "getDirectoryOrMetric h d q \<noteq> Some (None, Some m)" if "q \<noteq> []" "prefix q p" for q m
    proof
      assume "getDirectoryOrMetric h d q = Some (None, Some m)"
      from registerDirectory_metric_on_walk[OF wf d that this] reg show False by simp
    qed
    let ?met = "\<lparr>Description = description, Unit = unit, Value = v, metricEnclosingListEntry = None\<rparr>"
    have rm: "registerMetric h d (p @ [s]) val unit description =
        Some (storeMetric (snd (newMetric h1 ?met)) current s (length (metrics h1)))"
      unfolding registerMetric_snoc using reg v by simp
    show ?thesis
    proof (cases "lookup h1 current s")
      case None
      have gd: "getDirectoryOrMetric h d (p @ [s]) = Some (None, None)"
      proof (cases "getDirectory h d p")
        case None
        then show ?thesis by (simp add: getDirectoryOrMetric_snoc)
      next
        case (Some r0)
        from registerDirectory_existing[OF Some] reg have "h1 = h" "current = r0" by simp_all
        then show ?thesis using Some \<open>lookup h1 current s = None\<close> by (simp add: getDirectoryOrMetric_snoc)
      qed
      have "registerMetric h d (p @ [s]) val unit description = Some (None, installed h1 current s ?met)"
        using rm storeMetric_new[OF None] by simp
      with gd nometric S(1-5) None show ?thesis by (rule success)
    next
      case (Some n)
      have "contents (dirs h1 ! current) \<noteq> []" using Some by (auto simp: lookup_def)
      with S(6) obtain r0 where r0: "getDirectory h d p = Some r0" by auto
      from registerDirectory_existing[OF r0] reg have eq: "h1 = h" "current = r0" by simp_all
      have "entry_ok h current s n" using wf_lookup[OF wf _ Some[unfolded eq(1)]] S(3) eq by simp
      then have ne: "(Directory (entries h ! n), Metric (entries h ! n)) \<noteq> (None, None)"
        by (auto elim: entry_ok_cases)
      have gd: "getDirectoryOrMetric h d (p @ [s]) = Some (Directory (entries h ! n), Metric (entries h ! n))"
        using r0 Some eq by (simp add: getDirectoryOrMetric_snoc)
      have "registerMetric h d (p @ [s]) val unit description =
          Some (Some ErrPathInUse, snd (newMetric h ?met))"
        using rm storeMetric_bound[OF Some] eq by simp
      with gd ne nometric show ?thesis by (rule bound)
    qed
  qed
qed

lemma strict_prefix_snoc: "strict_prefix q (p @ [s]) \<longleftrightarrow> prefix q p"
  by (auto simp: strict_prefix_def dest: prefix_length_le)

subsection \<open>Parsing\<close>

lemma newPathSpec_loop_filter:
  "idx \<le> i \<Longrightarrow>
   (case newPathSpec_loop parts i idx of (ps, k) \<Rightarrow> take k ps) =
     take idx parts @ filter (\<lambda>s. \<not> TrimSpace_empty s) (drop i parts)"
proof (induction parts i idx rule: newPathSpec_loop.induct)
  case (1 parts i idx)
  show ?case
  proof (cases "i < length parts")
    case False
    then show ?thesis by (subst newPathSpec_loop.simps) simp
  next
    case True
    then have dr: "drop i parts = parts ! i # drop (Suc i) parts" by (simp add: Cons_nth_drop_Suc)
    show ?thesis
    proof (cases "TrimSpace_empty (parts ! i)")
      case blank: True
      have "(case newPathSpec_loop parts i idx of (ps, k) \<Rightarrow> take k ps) =
            (case newPathSpec_loop parts (i + 1) idx of (ps, k) \<Rightarrow> take k ps)"
        using True blank by (subst newPathSpec_loop.simps) simp
      also have "\<dots> = take idx parts @ filter (\<lambda>s. \<not> TrimSpace_empty s) (drop (i + 1) parts)"
        using "1.IH"(1)[OF True blank] "1.prems" by simp
      finally show ?thesis using dr blank by simp
    next
      case nonblank: False
      let ?parts = "parts[idx := parts ! i]"
      have "(case newPathSpec_loop parts i idx of (ps, k) \<Rightarrow> take k ps) =
            (case newPathSpec_loop ?parts (i + 1) (idx + 1) of (ps, k) \<Rightarrow> take k ps)"
        using True nonblank by (subst newPathSpec_loop.simps) simp
      also have "\<dots> = take (idx + 1) ?parts @ filter (\<lambda>s. \<not> TrimSpace_empty s) (drop (i + 1) ?parts)"
        using "1.IH"(2)[OF True nonblank] "1.prems" by simp
      also have "take (idx + 1) ?parts = take idx parts @ [parts ! i]"
        using True "1.prems" by (simp add: take_Suc_conv_app_nth)
      also have "drop (i + 1) ?parts = drop (Suc i) parts"
        using "1.prems" by simp
      finally show ?thesis using dr nonblank by simp
    qed
  qed
qed

lemma newPathSpec_filter: "newPathSpec path = filter (\<lambda>s. \<not> TrimSpace_empty s) (Split path)"
  using newPathSpec_loop_filter[of 0 0 "Split path"] by (simp add: newPathSpec_def)

lemma TrimSpace_empty_Nil [simp]: "TrimSpace_empty []"
  by (simp add: TrimSpace_empty_def)

lemma registerMetric_failure_keeps:
  assumes "wf h" and "d < length (dirs h)"
    and "registerMetric h d path val unit description = Some (Some e, h')"
  shows "e = ErrPathInUse \<and> dirs h' = dirs h \<and> entries h' = entries h \<and>
     take (length (metrics h)) (metrics h') = metrics h"
proof (cases path rule: rev_cases)
  case Nil
  then show ?thesis using assms(3) by (simp add: registerMetric_Nil)
next
  case (snoc p s)
  obtain res h1 where reg: "registerDirectory h d p = (res, h1)"
    by (cases "registerDirectory h d p")
  show ?thesis
  proof (cases res)
    case (Inl e1)
    from registerDirectory_failure[OF assms(1,2) reg[unfolded Inl]]
    have "h1 = h" "e1 = ErrPathInUse" by simp_all
    then show ?thesis using assms(3) reg Inl unfolding snoc registerMetric_snoc by simp
  next
    case (Inr current)
    then obtain v where v: "newValue val = Some v"
      using assms(3) reg unfolding snoc registerMetric_snoc by (auto split: option.splits)
    from assms(1,2) v show ?thesis
    proof (cases rule: registerMetric_outcomes[where p = p and s = s and unit = unit and description = description])
      case (ancestor q m)
      then show ?thesis using assms(3) snoc by simp
    next
      case (bound r)
      then show ?thesis using assms(3) snoc by (auto simp: newMetric_def)
    next
      case (success h1 current)
      then show ?thesis using assms(3) snoc by simp
    qed
  qed
qed

subsection \<open>Invariance, absolute paths and printed paths\<close>

lemma wf_registerMetric:
  assumes "wf h" and "d < length (dirs h)"
    and "registerMetric h d path val unit description = Some (res, h')"
  shows "wf h'"
proof (cases path rule: rev_cases)
  case Nil
  then show ?thesis using assms(1,3) by (simp add: registerMetric_Nil)
next
  case (snoc p s)
  obtain r1 h1 where reg: "registerDirectory h d p = (r1, h1)"
    by (cases "registerDirectory h d p")
  show ?thesis
  proof (cases r1)
    case (Inl e1)
    from registerDirectory_failure[OF assms(1,2) reg[unfolded Inl]] have "h1 = h" by simp
    then show ?thesis using assms(1,3) reg Inl unfolding snoc registerMetric_snoc by auto
  next
    case (Inr current)
    then obtain v where v: "newValue val = Some v"
      using assms(3) reg unfolding snoc registerMetric_snoc by (auto split: option.splits)
    from assms(1,2) v show ?thesis
    proof (cases rule: registerMetric_outcomes[where p = p and s = s and unit = unit and description = description])
      case (ancestor q m)
      then show ?thesis using assms(1,3) snoc by simp
    next
      case (bound r)
      then show ?thesis using assms(1,3) snoc wf_newMetric[OF assms(1)] by auto
    next
      case (success h1 current)
      then show ?thesis using assms(3) snoc wf_installed[OF success(3,5,8)] by auto
    qed
  qed
qed

lemma wf_registerDirectory:
  assumes "wf h" and "d < length (dirs h)" and "registerDirectory h d p = (res, h')"
  shows "wf h'"
proof (cases res)
  case (Inl e)
  from registerDirectory_failure[OF assms(1,2) assms(3)[unfolded Inl]] assms(1) show ?thesis by simp
next
  case (Inr r)
  from registerDirectory_success[OF assms(1,2) assms(3)[unfolded Inr]] show ?thesis by simp
qed

lemma pathFrom_loop_None [simp]: "pathFrom_loop h None from names = Some (names, None)"
  by (subst pathFrom_loop.simps) simp

lemma pathFrom_loop_Some:
  "Some c \<noteq> from \<Longrightarrow>
   pathFrom_loop h (Some c) from names =
     pathFrom_loop h (parent (entries h ! c)) from (names @ [Name (entries h ! c)])"
  by (subst pathFrom_loop.simps) simp

lemma pathFrom_loop_to_root:
  assumes "wf h"
  shows "getDirectory h root q = Some dir \<Longrightarrow>
    pathFrom_loop h (enclosingListEntry (dirs h ! dir)) None names = Some (names @ rev q, None)"
proof (induction q arbitrary: dir names rule: rev_induct)
  case Nil
  then show ?case using assms by (simp add: wf_def)
next
  case (snoc s q)
  from snoc.prems obtain d0 n where d0: "getDirectory h root q = Some d0" "lookup h d0 s = Some n"
    "Directory (entries h ! n) = Some dir"
    by (auto simp: getDirectory_append split: option.splits)
  have r: "root < length (dirs h)" using assms by (simp add: wf_def root_def)
  have d0v: "d0 < length (dirs h)" by (rule getDirectory_valid[OF assms r d0(1)])
  have ok: "entry_ok h d0 s n" by (rule wf_lookup[OF assms d0v d0(2)])
  then have e: "enclosingListEntry (dirs h ! dir) = Some n" "Name (entries h ! n) = s"
    "parent (entries h ! n) = enclosingListEntry (dirs h ! d0)"
    using d0(3) by (auto simp: entry_ok_def split: option.splits)
  show ?case
    unfolding e(1) using pathFrom_loop_Some[of n None h names] e(2,3) snoc.IH[OF d0(1), of "names @ [s]"]
    by simp
qed

lemma absPath_entry:
  assumes "wf h" "getDirectory h root q = Some d0" "lookup h d0 s = Some n"
  shows "absPath h (Some n) = Some (''/'' @ String (q @ [s]))"
proof -
  have r: "root < length (dirs h)" using assms(1) by (simp add: wf_def root_def)
  have d0v: "d0 < length (dirs h)" by (rule getDirectory_valid[OF assms(1) r assms(2)])
  have ok: "entry_ok h d0 s n" by (rule wf_lookup[OF assms(1) d0v assms(3)])
  then have e: "Name (entries h ! n) = s" "parent (entries h ! n) = enclosingListEntry (dirs h ! d0)"
    by (auto simp: entry_ok_def)
  have fr0: "enclosingListEntry (dirs h ! root) = None" using assms(1) by (simp add: wf_def)
  have "pathFrom_loop h (Some n) None [] = Some ([s] @ rev q, None)"
    using pathFrom_loop_Some[of n None h "[]"] e pathFrom_loop_to_root[OF assms(1,2), of "[s]"] by simp
  then show ?thesis by (simp add: absPath_def pathFrom_def fr0)
qed

lemma metricAbsPath_lookup:
  assumes "wf h" "getDirectoryOrMetric h root p = Some (None, Some m)"
  shows "metricAbsPath h m = Some (''/'' @ String p)"
proof (cases p rule: rev_cases)
  case Nil
  then show ?thesis using assms(2) by simp
next
  case (snoc q s)
  from assms(2) obtain d0 n where d0: "getDirectory h root q = Some d0" "lookup h d0 s = Some n"
    "Metric (entries h ! n) = Some m"
    unfolding snoc getDirectoryOrMetric_snoc by (auto split: option.splits)
  have r: "root < length (dirs h)" using assms(1) by (simp add: wf_def root_def)
  have d0v: "d0 < length (dirs h)" by (rule getDirectory_valid[OF assms(1) r d0(1)])
  have ok: "entry_ok h d0 s n" by (rule wf_lookup[OF assms(1) d0v d0(2)])
  then have "metricEnclosingListEntry (metrics h ! m) = Some n"
    using d0(3) by (auto simp: entry_ok_def split: option.splits)
  then show ?thesis using absPath_entry[OF assms(1) d0(1,2)] by (simp add: metricAbsPath_def snoc)
qed

lemma directoryAbsPath_root: "wf h \<Longrightarrow> directoryAbsPath h root = Some ''/''"
  by (simp add: directoryAbsPath_def absPath_def pathFrom_def wf_def String_def)

lemma Split_not_Nil [simp]: "Split s \<noteq> []"
  by (induction s) (auto split: list.splits)

lemma Split_no_slash: "CHR ''/'' \<notin> set s \<Longrightarrow> Split s = [s]"
  by (induction s) auto

lemma Split_segment: "CHR ''/'' \<notin> set s \<Longrightarrow> Split (s @ CHR ''/'' # rest) = s # Split rest"
  by (induction s) (auto split: list.splits)

lemma Split_Join:
  "segs \<noteq> [] \<Longrightarrow> \<forall>s \<in> set segs. CHR ''/'' \<notin> set s \<Longrightarrow> Split (Join segs ''/'') = segs"
proof (induction segs "''/''" rule: Join.induct)
  case 1
  then show ?case by simp
next
  case (2 a)
  then show ?case by (simp add: Split_no_slash)
next
  case (3 a b rest)
  then show ?case by (simp add: Split_segment)
qed

lemma newPathSpec_String:
  assumes "\<forall>s \<in> set segs. \<not> TrimSpace_empty s \<and> CHR ''/'' \<notin> set s"
  shows "newPathSpec (''/'' @ String segs) = segs"
proof (cases "segs = []")
  case True
  then show ?thesis by (simp add: newPathSpec_filter String_def)
next
  case False
  have "Split (''/'' @ String segs) = [] # segs"
    using Split_Join[OF False] assms by (simp add: String_def)
  moreover have "filter (\<lambda>s. \<not> TrimSpace_empty s) segs = segs" using assms by (simp add: filter_id_conv)
  ultimately show ?thesis by (simp add: newPathSpec_filter)
qed

subsection \<open>An example\<close>

lemma example_registration:
  "\<exists>h'. RegisterMetric initial ''/proc/rpc-count'' (PointerSpec KindInt) ''None'' ''RPC count'' = Some (None, h')"
proof -
  have "fst (the (RegisterMetric initial ''/proc/rpc-count'' (PointerSpec KindInt) ''None'' ''RPC count'')) = None \<and>
    RegisterMetric initial ''/proc/rpc-count'' (PointerSpec KindInt) ''None'' ''RPC count'' \<noteq> None"
    by code_simp
  then show ?thesis by (cases "RegisterMetric initial ''/proc/rpc-count'' (PointerSpec KindInt) ''None'' ''RPC count''") auto
qed

subsection \<open>Traversal\<close>

lemma deliver_append:
  "deliver collect c (xs @ ys) =
     (case deliver collect c xs of
        (Some err, c') \<Rightarrow> (Some err, c')
      | (None, c') \<Rightarrow> deliver collect c' ys)"
  by (induction xs arbitrary: c) (auto split: prod.splits option.splits)

lemma set_List: "set (List h d) = snd ` set (contents (dirs h ! d))"
  by (simp add: List_def sortListEntries_def)

lemma List_entries:
  assumes "wf h" "d < length (dirs h)" "n \<in> set (List h d)"
  shows "lookup h d (Name (entries h ! n)) = Some n" "entry_ok h d (Name (entries h ! n)) n"
proof -
  from assms(3) obtain s where s: "(s, n) \<in> set (contents (dirs h ! d))" by (auto simp: set_List)
  have dok: "dir_ok h d" using assms(1,2) by (simp add: wf_def)
  then have ok: "entry_ok h d s n" using s by (auto simp: dir_ok_def)
  then have nm: "Name (entries h ! n) = s" by (simp add: entry_ok_def)
  have "map_of (contents (dirs h ! d)) s = Some n" using dok s by (simp add: dir_ok_def)
  then show "lookup h d (Name (entries h ! n)) = Some n" by (simp add: lookup_def nm)
  show "entry_ok h d (Name (entries h ! n)) n" using ok nm by simp
qed

lemma List_sorted:
  assumes "wf h" "d < length (dirs h)"
  shows "sorted_wrt (<) (map (\<lambda>n. Name (entries h ! n)) (List h d))"
proof -
  have dok: "dir_ok h d" using assms by (simp add: wf_def)
  let ?f = "\<lambda>n. Name (entries h ! n)"
  have "\<forall>x \<in> set (contents (dirs h ! d)). ?f (snd x) = fst x"
    using dok by (auto simp: dir_ok_def entry_ok_def)
  then have "map ?f (map snd (contents (dirs h ! d))) = map fst (contents (dirs h ! d))"
    by (simp add: comp_def cong: map_cong)
  moreover have "distinct (map fst (contents (dirs h ! d)))" using dok by (simp add: dir_ok_def)
  ultimately have dist: "distinct (map ?f (map snd (contents (dirs h ! d))))" by (simp only:)
  have "distinct (map ?f (sort_key ?f xs)) = distinct (map ?f xs)" for xs :: "ref list"
    by (simp add: distinct_map)
  then have "distinct (map ?f (List h d)) = distinct (map ?f (map snd (contents (dirs h ! d))))"
    unfolding List_def sortListEntries_def by blast
  then have "distinct (map ?f (List h d))" using dist by (simp only:)
  moreover have "sorted (map ?f (List h d))" by (simp add: List_def sortListEntries_def)
  ultimately show ?thesis by (simp add: strict_sorted_iff)
qed

lemma List_lookup:
  assumes "wf h" "d < length (dirs h)" "lookup h d s = Some n"
  shows "n \<in> set (List h d)"
  using assms(3) by (force simp: set_List lookup_def dest: map_of_SomeD)

lemma getDirectoryOrMetric_single:
  "getDirectoryOrMetric h d [s] =
     (case lookup h d s of
        None \<Rightarrow> Some (None, None)
      | Some n \<Rightarrow> Some (Directory (entries h ! n), Metric (entries h ! n)))"
  using getDirectoryOrMetric_snoc[of h d "[]" s] by simp

lemma leaves_entry_dir:
  "Directory (entries h ! n) = Some dir \<Longrightarrow>
   leaves_entry sub h n = map (\<lambda>(p, m). (Name (entries h ! n) # p, m)) (sub dir)"
  by (simp add: leaves_entry_def)

lemma leaves_entry_metric:
  "Directory (entries h ! n) = None \<Longrightarrow> Metric (entries h ! n) = Some m \<Longrightarrow>
   leaves_entry sub h n = [([Name (entries h ! n)], m)]"
  by (simp add: leaves_entry_def)

lemma GetAllMetrics_loop_deliver:
  assumes sub: "\<And>dir c. dir \<in> S \<Longrightarrow>
      GetAllMetrics k h collect dir c = Some (deliver collect c (map snd (leaves k h dir)))"
    and ns: "\<And>n. n \<in> set ns \<Longrightarrow> \<exists>name. entry_ok h d name n"
    and S: "\<And>dir. d < dir \<Longrightarrow> dir < length (dirs h) \<Longrightarrow> dir \<in> S"
  shows "GetAllMetrics_loop k h collect ns c =
     Some (deliver collect c (map snd (concat (map (leaves_entry (leaves k h) h) ns))))"
  using ns
proof (induction ns arbitrary: c)
  case Nil
  show ?case by simp
next
  case (Cons n rest)
  have IH: "GetAllMetrics_loop k h collect rest c' =
     Some (deliver collect c' (map snd (concat (map (leaves_entry (leaves k h) h) rest))))" for c'
    using Cons.IH Cons.prems by simp
  from Cons.prems obtain name where ok: "entry_ok h d name n" by auto
  from ok show ?case
  proof (cases rule: entry_ok_cases)
    case (dir d')
    have run: "GetAllMetrics k h collect d' c = Some (deliver collect c (map snd (leaves k h d')))"
      using sub S dir(3,4) by simp
    have blk: "map snd (leaves_entry (leaves k h) h n) = map snd (leaves k h d')"
      by (simp add: leaves_entry_dir[OF dir(1)] case_prod_unfold comp_def)
    obtain e c' where r: "deliver collect c (map snd (leaves k h d')) = (e, c')" by force
    show ?thesis
      by (cases e) (simp_all add: dir(1) run blk deliver_append r IH)
  next
    case (metric m)
    obtain e c' where r: "collect c (Some m) = (e, c')" by force
    show ?thesis
      by (cases e) (simp_all add: metric(1,2) leaves_entry_metric[OF metric(1,2)] r IH)
  qed
qed

lemma GetAllMetrics_deliver:
  assumes "wf h"
  shows "d < length (dirs h) \<Longrightarrow> length (dirs h) - d \<le> k \<Longrightarrow>
    GetAllMetrics k h collect d c = Some (deliver collect c (map snd (leaves k h d)))"
proof (induction k arbitrary: d c)
  case 0
  then show ?case by simp
next
  case (Suc k)
  have "GetAllMetrics_loop k h collect (List h d) c =
     Some (deliver collect c (map snd (concat (map (leaves_entry (leaves k h) h) (List h d)))))"
  proof (rule GetAllMetrics_loop_deliver[where S = "{dir. d < dir \<and> dir < length (dirs h)}" and d = d])
    fix dir c'
    assume "dir \<in> {dir. d < dir \<and> dir < length (dirs h)}"
    then have "dir < length (dirs h)" "length (dirs h) - dir \<le> k" using Suc.prems by auto
    then show "GetAllMetrics k h collect dir c' = Some (deliver collect c' (map snd (leaves k h dir)))"
      by (rule Suc.IH)
  next
    fix n assume "n \<in> set (List h d)"
    then show "\<exists>name. entry_ok h d name n"
      using List_entries(2)[OF assms Suc.prems(1)] by blast
  next
    fix dir assume "d < dir" "dir < length (dirs h)"
    then show "dir \<in> {dir. d < dir \<and> dir < length (dirs h)}" by simp
  qed
  then show ?case by simp
qed

lemma leaves_set:
  assumes "wf h"
  shows "d < length (dirs h) \<Longrightarrow> length (dirs h) - d \<le> k \<Longrightarrow>
    (p, m) \<in> set (leaves k h d) \<longleftrightarrow> getDirectoryOrMetric h d p = Some (None, Some m)"
proof (induction k arbitrary: d p)
  case 0
  then show ?case by simp
next
  case (Suc k)
  note d = Suc.prems(1)
  have IH: "(q, m) \<in> set (leaves k h d') \<longleftrightarrow> getDirectoryOrMetric h d' q = Some (None, Some m)"
    if "d < d'" "d' < length (dirs h)" for d' q
    using Suc.IH[of d' q] that Suc.prems by simp
  show ?case
  proof
    assume "(p, m) \<in> set (leaves (Suc k) h d)"
    then obtain n where n: "n \<in> set (List h d)"
      and pm: "(p, m) \<in> set (leaves_entry (leaves k h) h n)" by auto
    let ?s = "Name (entries h ! n)"
    have lk: "lookup h d ?s = Some n" and ok: "entry_ok h d ?s n"
      using List_entries[OF assms d n] by simp_all
    from ok show "getDirectoryOrMetric h d p = Some (None, Some m)"
    proof (cases rule: entry_ok_cases)
      case (dir d')
      from pm obtain q where p: "p = ?s # q" and q: "(q, m) \<in> set (leaves k h d')"
        by (auto simp: leaves_entry_dir[OF dir(1)])
      have r: "getDirectoryOrMetric h d' q = Some (None, Some m)" using IH[OF dir(3,4)] q by simp
      then have "q \<noteq> []" by auto
      then show ?thesis using getDirectoryOrMetric_Cons[OF _ lk dir(1)] r p by simp
    next
      case (metric m0)
      from pm have "p = [?s]" "m = m0" by (simp_all add: leaves_entry_metric[OF metric(1,2)])
      then show ?thesis by (simp add: getDirectoryOrMetric_single lk metric(1,2))
    qed
  next
    assume r: "getDirectoryOrMetric h d p = Some (None, Some m)"
    then have "p \<noteq> []" by auto
    then obtain s q where p: "p = s # q" by (cases p) auto
    show "(p, m) \<in> set (leaves (Suc k) h d)"
    proof (cases "q = []")
      case True
      from r obtain n where lk: "lookup h d s = Some n"
        and dm: "Directory (entries h ! n) = None" "Metric (entries h ! n) = Some m"
        by (auto simp: p True getDirectoryOrMetric_single split: option.splits)
      have nm: "Name (entries h ! n) = s" using wf_lookup[OF assms d lk] by (simp add: entry_ok_def)
      have "n \<in> set (List h d)" by (rule List_lookup[OF assms d lk])
      moreover have "(p, m) \<in> set (leaves_entry (leaves k h) h n)"
        by (simp add: leaves_entry_metric[OF dm] nm p True)
      ultimately show ?thesis by auto
    next
      case False
      have "\<exists>n d'. lookup h d s = Some n \<and> Directory (entries h ! n) = Some d'"
      proof (rule ccontr)
        assume "\<not> (\<exists>n d'. lookup h d s = Some n \<and> Directory (entries h ! n) = Some d')"
        then have "lookup h d s = None \<or> (\<exists>n. lookup h d s = Some n \<and> Directory (entries h ! n) = None)"
          by (cases "lookup h d s") auto
        from getDirectoryOrMetric_Cons_None[OF this False] r show False by (simp add: p)
      qed
      then obtain n d' where lk: "lookup h d s = Some n" and dir: "Directory (entries h ! n) = Some d'"
        by blast
      have ok: "entry_ok h d s n" by (rule wf_lookup[OF assms d lk])
      then have nm: "Name (entries h ! n) = s" by (simp add: entry_ok_def)
      from ok dir have d': "d < d'" "d' < length (dirs h)"
        by (auto simp: entry_ok_def split: option.splits)
      have "getDirectoryOrMetric h d' q = Some (None, Some m)"
        using getDirectoryOrMetric_Cons[OF False lk dir] r p by simp
      then have "(q, m) \<in> set (leaves k h d')" using IH[OF d'] by simp
      then have "(p, m) \<in> set (leaves_entry (leaves k h) h n)"
        by (force simp: leaves_entry_dir[OF dir] nm p)
      moreover have "n \<in> set (List h d)" by (rule List_lookup[OF assms d lk])
      ultimately show ?thesis by auto
    qed
  qed
qed

lemma sorted_wrt_Cons_map:
  "sorted_wrt (<) (map ((#) s) ps) = sorted_wrt (<) (ps :: pathSpec list)"
  by (simp add: sorted_wrt_map)

lemma concat_sorted:
  fixes blk :: "ref \<Rightarrow> (pathSpec \<times> ref) list"
  assumes "sorted_wrt (<) (map nm ns)"
    and "\<And>n. n \<in> set ns \<Longrightarrow> sorted_wrt (<) (map fst (blk n))"
    and "\<And>n x. n \<in> set ns \<Longrightarrow> x \<in> set (blk n) \<Longrightarrow> \<exists>q. fst x = nm n # q"
  shows "sorted_wrt (<) (map fst (concat (map blk ns)))"
  using assms
proof (induction ns)
  case Nil
  show ?case by simp
next
  case (Cons n rest)
  have rest: "sorted_wrt (<) (map fst (concat (map blk rest)))"
    using Cons.IH Cons.prems by simp
  have here: "sorted_wrt (<) (map fst (blk n))" using Cons.prems(2) by simp
  have cross: "fst x < fst y" if x: "x \<in> set (blk n)" and y: "y \<in> set (concat (map blk rest))" for x y
  proof -
    from y obtain n' where n': "n' \<in> set rest" "y \<in> set (blk n')" by auto
    from Cons.prems(3)[of n x] x obtain q where q: "fst x = nm n # q" by auto
    from Cons.prems(3)[of n' y] n' obtain q' where q': "fst y = nm n' # q'" by auto
    have "nm n < nm n'" using Cons.prems(1) n'(1) by auto
    then show ?thesis by (simp add: q q')
  qed
  have "\<forall>x \<in> set (blk n). \<forall>y \<in> set (concat (map blk rest)). fst x < fst y"
    using cross by blast
  then show ?case using rest here by (simp add: sorted_wrt_append)
qed

lemma leaves_sorted:
  assumes "wf h"
  shows "d < length (dirs h) \<Longrightarrow> length (dirs h) - d \<le> k \<Longrightarrow>
    sorted_wrt (<) (map fst (leaves k h d))"
proof (induction k arbitrary: d)
  case 0
  then show ?case by simp
next
  case (Suc k)
  note d = Suc.prems(1)
  have "sorted_wrt (<) (map fst (concat (map (leaves_entry (leaves k h) h) (List h d))))"
  proof (rule concat_sorted[where nm = "\<lambda>n. Name (entries h ! n)"])
    show "sorted_wrt (<) (map (\<lambda>n. Name (entries h ! n)) (List h d))"
      by (rule List_sorted[OF assms d])
  next
    fix n assume n: "n \<in> set (List h d)"
    have ok: "entry_ok h d (Name (entries h ! n)) n" by (rule List_entries(2)[OF assms d n])
    from ok show "sorted_wrt (<) (map fst (leaves_entry (leaves k h) h n))"
    proof (cases rule: entry_ok_cases)
      case (dir d')
      have "sorted_wrt (<) (map fst (leaves k h d'))" using Suc.IH[of d'] dir(3,4) Suc.prems by simp
      moreover have "map fst (leaves_entry (leaves k h) h n) =
          map ((#) (Name (entries h ! n))) (map fst (leaves k h d'))"
        by (simp add: leaves_entry_dir[OF dir(1)] case_prod_unfold comp_def)
      ultimately show ?thesis by (simp only: sorted_wrt_Cons_map)
    next
      case (metric m)
      show ?thesis by (simp add: leaves_entry_metric[OF metric(1,2)])
    qed
  next
    fix n x assume n: "n \<in> set (List h d)" and x: "x \<in> set (leaves_entry (leaves k h) h n)"
    have ok: "entry_ok h d (Name (entries h ! n)) n" by (rule List_entries(2)[OF assms d n])
    from ok show "\<exists>q. fst x = Name (entries h ! n) # q"
    proof (cases rule: entry_ok_cases)
      case (dir d')
      show ?thesis using x by (auto simp: leaves_entry_dir[OF dir(1)])
    next
      case (metric m)
      show ?thesis using x by (simp add: leaves_entry_metric[OF metric(1,2)])
    qed
  qed
  then show ?case by simp
qed

lemma deliver_stops:
  "deliver collect c ms1 = (None, c1) \<Longrightarrow> collect c1 (Some m) = (Some err, c2) \<Longrightarrow>
   deliver collect c (ms1 @ m # ms2) = (Some err, c2)"
  by (simp add: deliver_append)

lemma example_traversal:
  "\<exists>h1 h. RegisterMetric initial ''/proc/a/x'' (PointerSpec KindInt) ''None'' ''first'' = Some (None, h1) \<and>
     RegisterMetric h1 ''/proc/a-b'' (PointerSpec KindInt) ''None'' ''second'' = Some (None, h) \<and>
     wf h \<and> length (dirs h) = 3 \<and>
     GetAllMetrics 3 h (\<lambda>c m. (None :: error option, c @ [Option.bind m (metricAbsPath h)])) root []
       = Some (None, [Some ''/proc/a/x'', Some ''/proc/a-b'']) \<and>
     GetAllMetrics 3 h (\<lambda>c m. (Some ErrPathInUse, c @ [Option.bind m (metricAbsPath h)])) root []
       = Some (Some ErrPathInUse, [Some ''/proc/a/x''])"
proof -
  let ?A = "RegisterMetric initial ''/proc/a/x'' (PointerSpec KindInt) ''None'' ''first''"
  let ?B = "\<lambda>h1. RegisterMetric h1 ''/proc/a-b'' (PointerSpec KindInt) ''None'' ''second''"
  have ev: "case (do { (e1, h1) \<leftarrow> ?A; (e2, h) \<leftarrow> ?B h1; Some (e1, e2, h) }) of
      None \<Rightarrow> False
    | Some (e1, e2, h) \<Rightarrow> e1 = None \<and> e2 = None \<and> length (dirs h) = 3 \<and>
        GetAllMetrics 3 h (\<lambda>c m. (None :: error option, c @ [Option.bind m (metricAbsPath h)])) root []
          = Some (None, [Some ''/proc/a/x'', Some ''/proc/a-b'']) \<and>
        GetAllMetrics 3 h (\<lambda>c m. (Some ErrPathInUse, c @ [Option.bind m (metricAbsPath h)])) root []
          = Some (Some ErrPathInUse, [Some ''/proc/a/x''])"
    by code_simp
  obtain e1 h1 where a: "?A = Some (e1, h1)" using ev by (cases ?A) auto
  obtain e2 h where b: "?B h1 = Some (e2, h)" using ev a by (cases "?B h1") auto
  from ev a b have r: "e1 = None" "e2 = None" "length (dirs h) = 3"
    "GetAllMetrics 3 h (\<lambda>c m. (None :: error option, c @ [Option.bind m (metricAbsPath h)])) root []
          = Some (None, [Some ''/proc/a/x'', Some ''/proc/a-b''])"
    "GetAllMetrics 3 h (\<lambda>c m. (Some ErrPathInUse, c @ [Option.bind m (metricAbsPath h)])) root []
          = Some (Some ErrPathInUse, [Some ''/proc/a/x''])"
    by simp_all
  have r0: "root < length (dirs initial)" by (simp add: initial_def newDirectory_def root_def)
  have w1: "wf h1" using wf_registerMetric[OF wf_root r0] a by (simp add: RegisterMetric_def)
  then have r1: "root < length (dirs h1)" by (simp add: wf_def root_def)
  have w: "wf h" using wf_registerMetric[OF w1 r1] b by (simp add: RegisterMetric_def)
  show ?thesis using a b r w by blast
qed

section \<open>The claims about distributions\<close>









text \<open>
  C4. Over the arbitrary bucketer with the single cut point \<open>1000\<close>: after \<open>200\<close> and
  \<open>300\<close> the snapshot's median is \<open>250\<close>; after \<open>3000\<close>, \<open>3000\<close> and \<open>7000\<close> on a new
  distribution it is \<open>5000\<close>. Every intermediate value of the two computations is an
  integer or a half, and the rounded median is the same.
\<close>

theorem median_all_low_all_high:
  "(NewArbitraryBucketer [1000] \<bind> (\<lambda>b. Adds (newDistribution b) [200, 300]) \<bind> Snapshot
      \<bind> (\<lambda>s. Some (Median s))) = Some 250 \<and>
   (NewArbitraryBucketer [1000] \<bind> (\<lambda>b. Adds (newDistribution b) [3000, 3000, 7000]) \<bind> Snapshot
      \<bind> (\<lambda>s. Some (Median s))) = Some 5000 \<and>
   (NewArbitraryBucketer [1000] \<bind> (\<lambda>b. Adds (newDistribution b) [200, 300]) \<bind> calculateMedian64)
      = Some 250 \<and>
   (NewArbitraryBucketer [1000] \<bind> (\<lambda>b. Adds (newDistribution b) [3000, 3000, 7000]) \<bind> calculateMedian64)
      = Some 5000"
proof -
  have "(NewArbitraryBucketer [1000] \<bind> (\<lambda>b. Adds (newDistribution b) [200, 300]) \<bind> Snapshot
      \<bind> (\<lambda>s. Some (Median s))) = Some 250"
    by code_simp
  moreover have "(NewArbitraryBucketer [1000] \<bind> (\<lambda>b. Adds (newDistribution b) [3000, 3000, 7000]) \<bind> Snapshot
      \<bind> (\<lambda>s. Some (Median s))) = Some 5000"
    by code_simp
  moreover have "(NewArbitraryBucketer [1000] \<bind> (\<lambda>b. Adds (newDistribution b) [200, 300]) \<bind> calculateMedian64)
      = Some 250"
    by (simp only: example_low bind.bind_lunit example_low_median64)
  moreover have "(NewArbitraryBucketer [1000] \<bind> (\<lambda>b. Adds (newDistribution b) [3000, 3000, 7000]) \<bind> calculateMedian64)
      = Some 5000"
    by (simp only: example_high bind.bind_lunit example_high_median64)
  ultimately show ?thesis by blast
qed

section \<open>The claims about the namespace\<close>

text \<open>
  C5. On a well-formed heap, for a directory \<open>d\<close> and a metric source that \<^verbatim>\<open>newValue\<close>
  accepts, \<^verbatim>\<open>registerMetric\<close> returns. It returns \<^verbatim>\<open>ErrPathInUse\<close> exactly when the
  path is empty, or a proper non-empty prefix of the path resolves to a metric, or the
  whole path resolves to something (a directory or a metric). Otherwise it returns no
  error, and afterwards the path resolves to the new metric (with the given description,
  unit and value), every proper prefix of the path resolves to a directory, and every
  path that resolved to something before resolves to the same object.
\<close>

theorem registerMetric_PathInUse_iff:
  assumes "wf h" and "d < length (dirs h)" and "newValue val = Some v"
  shows "\<exists>res h'. registerMetric h d path val unit description = Some (res, h') \<and>
      (res = Some ErrPathInUse \<longleftrightarrow>
         path = [] \<or>
         (\<exists>q m. q \<noteq> [] \<and> strict_prefix q path \<and> getDirectoryOrMetric h d q = Some (None, Some m)) \<or>
         (\<exists>r. path \<noteq> [] \<and> getDirectoryOrMetric h d path = Some r \<and> r \<noteq> (None, None))) \<and>
      (res \<noteq> Some ErrPathInUse \<longrightarrow>
         res = None \<and> wf h' \<and>
         getDirectoryOrMetric h' d path = Some (None, Some (length (metrics h))) \<and>
         length (metrics h) < length (metrics h') \<and>
         Description (metrics h' ! length (metrics h)) = description \<and>
         Unit (metrics h' ! length (metrics h)) = unit \<and>
         Value (metrics h' ! length (metrics h)) = v \<and>
         (\<forall>q. strict_prefix q path \<longrightarrow> getDirectory h' d q \<noteq> None) \<and>
         (\<forall>q r. getDirectoryOrMetric h d q = Some r \<and> r \<noteq> (None, None) \<longrightarrow>
                getDirectoryOrMetric h' d q = Some r))"
proof (cases path rule: rev_cases)
  case Nil
  then show ?thesis by (simp add: registerMetric_Nil)
next
  case (snoc p s)
  from assms show ?thesis
  proof (cases rule: registerMetric_outcomes[where p = p and s = s and unit = unit and description = description])
    case (ancestor q m)
    have "\<exists>q m. q \<noteq> [] \<and> strict_prefix q path \<and> getDirectoryOrMetric h d q = Some (None, Some m)"
      using ancestor(1-3) unfolding snoc strict_prefix_snoc by blast
    then show ?thesis using ancestor(4) snoc by simp
  next
    case (bound r)
    have "\<exists>r. path \<noteq> [] \<and> getDirectoryOrMetric h d path = Some r \<and> r \<noteq> (None, None)"
      using bound(1,2) snoc by simp
    then show ?thesis using bound(4) snoc by simp
  next
    case (success h1 current)
    let ?met = "\<lparr>Description = description, Unit = unit, Value = v, metricEnclosingListEntry = None\<rparr>"
    let ?h' = "installed h1 current s ?met"
    note I = installed_simps[OF success(5), where name = s and met = ?met]
    have rhs: "\<not> (path = [] \<or>
         (\<exists>q m. q \<noteq> [] \<and> strict_prefix q path \<and> getDirectoryOrMetric h d q = Some (None, Some m)) \<or>
         (\<exists>r. path \<noteq> [] \<and> getDirectoryOrMetric h d path = Some r \<and> r \<noteq> (None, None)))"
      using success(1,2) unfolding snoc strict_prefix_snoc by auto
    have wf': "wf ?h'" by (rule wf_installed[OF success(3,5,8)])
    have le1: "heap_le h1 ?h'" by (rule heap_le_installed[OF success(5,8)])
    have le: "heap_le h ?h'" by (rule heap_le_trans[OF success(4) le1])
    have dh1: "d < length (dirs h1)" using assms(2) success(4) by (auto simp: heap_le_def)
    have gd: "getDirectory ?h' d p = Some current"
      by (rule getDirectory_mono[OF success(3) le1 dh1 success(6)])
    have "lookup ?h' current s = Some (length (entries h1))"
      using installed_lookup[OF success(5)] by simp
    then have gm: "getDirectoryOrMetric ?h' d path = Some (None, Some (length (metrics h)))"
      unfolding snoc getDirectoryOrMetric_snoc using gd I(7) success(7) by simp
    have m: "length (metrics h) < length (metrics ?h')"
      "metrics ?h' ! length (metrics h) = ?met\<lparr>metricEnclosingListEntry := Some (length (entries h1))\<rparr>"
      using I(3,5) success(7) by simp_all
    have pre: "getDirectory ?h' d q \<noteq> None" if "strict_prefix q path" for q
    proof -
      from that have "prefix q p" unfolding snoc strict_prefix_snoc .
      then obtain q' where "p = q @ q'" by (auto simp: prefix_def)
      with gd show ?thesis by (auto simp: getDirectory_append split: option.splits)
    qed
    have keep: "getDirectoryOrMetric ?h' d q = Some r"
      if "getDirectoryOrMetric h d q = Some r \<and> r \<noteq> (None, None)" for q r
      using getDirectoryOrMetric_mono[OF assms(1) le assms(2)] that by blast
    have D: "Description (metrics ?h' ! length (metrics h)) = description"
      "Unit (metrics ?h' ! length (metrics h)) = unit"
      "Value (metrics ?h' ! length (metrics h)) = v"
      using m(2) by simp_all
    have A: "registerMetric h d path val unit description = Some (None, ?h')"
      using success(9) snoc by simp
    have B: "(None :: error option) = Some ErrPathInUse \<longleftrightarrow>
         path = [] \<or>
         (\<exists>q m. q \<noteq> [] \<and> strict_prefix q path \<and> getDirectoryOrMetric h d q = Some (None, Some m)) \<or>
         (\<exists>r. path \<noteq> [] \<and> getDirectoryOrMetric h d path = Some r \<and> r \<noteq> (None, None))"
    proof (rule iffI)
      assume "(None :: error option) = Some ErrPathInUse"
      then show "path = [] \<or>
         (\<exists>q m. q \<noteq> [] \<and> strict_prefix q path \<and> getDirectoryOrMetric h d q = Some (None, Some m)) \<or>
         (\<exists>r. path \<noteq> [] \<and> getDirectoryOrMetric h d path = Some r \<and> r \<noteq> (None, None))"
        by simp
    next
      assume "path = [] \<or>
         (\<exists>q m. q \<noteq> [] \<and> strict_prefix q path \<and> getDirectoryOrMetric h d q = Some (None, Some m)) \<or>
         (\<exists>r. path \<noteq> [] \<and> getDirectoryOrMetric h d path = Some r \<and> r \<noteq> (None, None))"
      with rhs show "(None :: error option) = Some ErrPathInUse" by (rule notE)
    qed
    have C: "\<forall>q. strict_prefix q path \<longrightarrow> getDirectory ?h' d q \<noteq> None" using pre by blast
    have E: "\<forall>q r. getDirectoryOrMetric h d q = Some r \<and> r \<noteq> (None, None) \<longrightarrow>
                getDirectoryOrMetric ?h' d q = Some r" using keep by blast
    show ?thesis
      apply (rule exI[of _ None])
      apply (rule exI[of _ ?h'])
      using A B C D E wf' gm m(1) by blast
  qed
qed

text \<open>The theorem on the initial heap, for the path \<open>proc/rpc-count\<close>.\<close>

theorem registerMetric_PathInUse_iff_witness:
  "wf initial \<and> root < length (dirs initial) \<and>
   (\<exists>v. newValue (PointerSpec KindInt) = Some v \<and>
     (\<exists>h'. registerMetric initial root [''proc'', ''rpc-count''] (PointerSpec KindInt) ''None'' ''RPC count''
          = Some (None, h') \<and> wf h' \<and>
        getDirectoryOrMetric h' root [''proc'', ''rpc-count''] = Some (None, Some 0) \<and>
        Description (metrics h' ! 0) = ''RPC count'' \<and> getDirectory h' root [''proc''] \<noteq> None))"
proof -
  have w: "wf initial" by (rule wf_root)
  have r: "root < length (dirs initial)" by (simp add: initial_def newDirectory_def root_def)
  obtain v where v: "newValue (PointerSpec KindInt) = Some v" by simp
  have m0: "length (metrics initial) = 0" by (simp add: initial_def newDirectory_def)
  have free: "getDirectoryOrMetric initial root q = Some (None, None)" if "q \<noteq> []" for q
  proof -
    from that obtain q' s where q: "q = q' @ [s]" by (cases q rule: rev_cases) auto
    have "getDirectoryOrMetric initial root (q' @ [s]) = Some (None, None)"
      unfolding getDirectoryOrMetric_snoc
      by (cases q') (simp_all add: lookup_def initial_def newDirectory_def root_def)
    then show ?thesis by (simp add: q)
  qed
  let ?path = "[''proc'', ''rpc-count'']"
  from registerMetric_PathInUse_iff[OF w r v, of ?path "''None''" "''RPC count''"]
  obtain res h' where R:
    "registerMetric initial root ?path (PointerSpec KindInt) ''None'' ''RPC count'' = Some (res, h')"
    "res = Some ErrPathInUse \<longleftrightarrow>
         ?path = [] \<or>
         (\<exists>q m. q \<noteq> [] \<and> strict_prefix q ?path \<and> getDirectoryOrMetric initial root q = Some (None, Some m)) \<or>
         (\<exists>r. ?path \<noteq> [] \<and> getDirectoryOrMetric initial root ?path = Some r \<and> r \<noteq> (None, None))"
    "res \<noteq> Some ErrPathInUse \<longrightarrow>
         res = None \<and> wf h' \<and>
         getDirectoryOrMetric h' root ?path = Some (None, Some (length (metrics initial))) \<and>
         length (metrics initial) < length (metrics h') \<and>
         Description (metrics h' ! length (metrics initial)) = ''RPC count'' \<and>
         Unit (metrics h' ! length (metrics initial)) = ''None'' \<and>
         Value (metrics h' ! length (metrics initial)) = v \<and>
         (\<forall>q. strict_prefix q ?path \<longrightarrow> getDirectory h' root q \<noteq> None) \<and>
         (\<forall>q r. getDirectoryOrMetric initial root q = Some r \<and> r \<noteq> (None, None) \<longrightarrow>
                getDirectoryOrMetric h' root q = Some r)"
    by blast
  have "res \<noteq> Some ErrPathInUse" using R(2) free by auto
  with R(3) have S: "res = None" "wf h'"
    "getDirectoryOrMetric h' root ?path = Some (None, Some (length (metrics initial)))"
    "Description (metrics h' ! length (metrics initial)) = ''RPC count''"
    "\<forall>q. strict_prefix q ?path \<longrightarrow> getDirectory h' root q \<noteq> None" by simp_all
  have "strict_prefix [''proc''] ?path" by (simp add: strict_prefix_def)
  with S(5) have "getDirectory h' root [''proc''] \<noteq> None" by blast
  with w r v R(1) S(1-4) m0 show ?thesis by simp
qed

text \<open>
  C6. On a well-formed heap: when every segment of the path is already a directory,
  \<^verbatim>\<open>registerDirectory\<close> returns the directory at the end of the walk and leaves the heap
  as it is; after a first call that returned a directory, the path resolves to that
  directory and a second call returns the same directory, without an error and without
  changing the heap; the call fails with \<^verbatim>\<open>ErrPathInUse\<close> exactly when a non-empty
  prefix of the path resolves to a metric, and a failing call leaves the heap as it is.
\<close>

theorem registerDirectory_idempotent:
  assumes "wf h" and "d < length (dirs h)"
  shows "(getDirectory h d p = Some r \<longrightarrow> registerDirectory h d p = (Inr r, h)) \<and>
     (registerDirectory h d p = (Inr r, h1) \<longrightarrow>
        getDirectory h1 d p = Some r \<and> registerDirectory h1 d p = (Inr r, h1)) \<and>
     ((\<exists>h'. registerDirectory h d p = (Inl ErrPathInUse, h')) \<longleftrightarrow>
        (\<exists>q m. q \<noteq> [] \<and> prefix q p \<and> getDirectoryOrMetric h d q = Some (None, Some m))) \<and>
     (registerDirectory h d p = (Inl e, h') \<longrightarrow> e = ErrPathInUse \<and> h' = h)"
proof (intro conjI impI)
  assume "getDirectory h d p = Some r"
  then show "registerDirectory h d p = (Inr r, h)" by (rule registerDirectory_existing)
next
  assume a: "registerDirectory h d p = (Inr r, h1)"
  from registerDirectory_success[OF assms a] show g: "getDirectory h1 d p = Some r" by simp
  then show "registerDirectory h1 d p = (Inr r, h1)" by (rule registerDirectory_existing)
next
  show "(\<exists>h'. registerDirectory h d p = (Inl ErrPathInUse, h')) \<longleftrightarrow>
        (\<exists>q m. q \<noteq> [] \<and> prefix q p \<and> getDirectoryOrMetric h d q = Some (None, Some m))"
    using registerDirectory_failure[OF assms] registerDirectory_metric_on_walk[OF assms] by blast
next
  assume "registerDirectory h d p = (Inl e, h')"
  from registerDirectory_failure[OF assms this] show "e = ErrPathInUse" "h' = h" by simp_all
qed

text \<open>The theorem for \<^verbatim>\<open>RegisterDirectory("/proc/foo")\<close>, called twice from the initial heap.\<close>

theorem registerDirectory_idempotent_witness:
  "wf initial \<and> root < length (dirs initial) \<and>
   (\<exists>r h1. RegisterDirectory initial ''/proc/foo'' = (Inr r, h1) \<and>
      getDirectory h1 root [''proc'', ''foo''] = Some r \<and>
      RegisterDirectory h1 ''/proc/foo'' = (Inr r, h1))"
proof -
  have w: "wf initial" by (rule wf_root)
  have r: "root < length (dirs initial)" by (simp add: initial_def newDirectory_def root_def)
  have p: "newPathSpec ''/proc/foo'' = [''proc'', ''foo'']"
    by (simp add: newPathSpec_filter TrimSpace_empty_def isSpace1_def)
  obtain res h1 where reg: "registerDirectory initial root [''proc'', ''foo''] = (res, h1)"
    by (cases "registerDirectory initial root [''proc'', ''foo'']")
  have "res \<noteq> Inl ErrPathInUse"
  proof
    assume "res = Inl ErrPathInUse"
    with registerDirectory_idempotent[OF w r, of "[''proc'', ''foo'']"] reg
    obtain q m where q: "q \<noteq> []" "prefix q [''proc'', ''foo'']"
      "getDirectoryOrMetric initial root q = Some (None, Some m)" by blast
    from q(1,2) have "q = [''proc''] \<or> q = [''proc'', ''foo'']"
      by (cases q; cases "tl q"; cases "tl (tl q)") auto
    then show False using q(3)
      by (auto simp: getDirectoryOrMetric_def Dir_def Base_def Empty_def lookup_def initial_def
          newDirectory_def root_def)
  qed
  then obtain r0 where "res = Inr r0" by (cases res; cases "projl res") auto
  with registerDirectory_idempotent[OF w r, of "[''proc'', ''foo'']" r0 h1] reg
  show ?thesis using w r p by (auto simp: RegisterDirectory_def)
qed

text \<open>
  C7. On a well-formed heap, for a path \<open>P\<close> that is \<open>/\<close> followed by segments joined by
  \<open>/\<close> (segments that are not blank and contain no \<open>/\<close>): after \<^verbatim>\<open>RegisterMetric(P)\<close>
  succeeded, \<^verbatim>\<open>GetMetric(P)\<close> finds a metric whose \<^verbatim>\<open>AbsPath()\<close> is \<open>P\<close>; whenever
  \<^verbatim>\<open>GetMetric(P)\<close> finds a metric, its \<^verbatim>\<open>AbsPath()\<close> is \<open>P\<close>; and the
  \<^verbatim>\<open>AbsPath()\<close> of the root directory is \<open>/\<close>.
\<close>

theorem AbsPath_round_trip:
  assumes "wf h" and "\<forall>s \<in> set segs. \<not> TrimSpace_empty s \<and> CHR ''/'' \<notin> set s"
    and "P = ''/'' @ String segs"
  shows "(RegisterMetric h P val unit description = Some (None, h') \<longrightarrow>
       wf h' \<and> (\<exists>m. GetMetric h' root P = Some (Some m, h') \<and> metricAbsPath h' m = Some P)) \<and>
     (GetMetric h root P = Some (Some m, h) \<longrightarrow> metricAbsPath h m = Some P) \<and>
     directoryAbsPath h root = Some ''/''"
proof (intro conjI impI)
  have p: "newPathSpec P = segs" using newPathSpec_String[OF assms(2)] assms(3) by simp
  have r: "root < length (dirs h)" using assms(1) by (simp add: wf_def root_def)
  show "directoryAbsPath h root = Some ''/''" by (rule directoryAbsPath_root[OF assms(1)])
  {
    assume "GetMetric h root P = Some (Some m, h)"
    then have "getDirectoryOrMetric h root segs = Some (fst (the (getDirectoryOrMetric h root segs)), Some m)"
      unfolding GetMetric_def p by (auto split: bind_splits)
    moreover have "fst (the (getDirectoryOrMetric h root segs)) = None"
    proof (cases segs rule: rev_cases)
      case Nil
      then show ?thesis using calculation by simp
    next
      case (snoc q s)
      from calculation obtain d0 n where d0: "getDirectory h root q = Some d0" "lookup h d0 s = Some n"
        "Metric (entries h ! n) = Some m"
        unfolding snoc getDirectoryOrMetric_snoc by (auto split: option.splits)
      have d0v: "d0 < length (dirs h)" by (rule getDirectory_valid[OF assms(1) r d0(1)])
      have "entry_ok h d0 s n" by (rule wf_lookup[OF assms(1) d0v d0(2)])
      then have "Directory (entries h ! n) = None" using d0(3) by (auto elim: entry_ok_cases)
      then show ?thesis unfolding snoc getDirectoryOrMetric_snoc using d0 by simp
    qed
    ultimately have "getDirectoryOrMetric h root segs = Some (None, Some m)" by simp
    from metricAbsPath_lookup[OF assms(1) this] show "metricAbsPath h m = Some P" using assms(3) by simp
  }
  {
    assume reg: "RegisterMetric h P val unit description = Some (None, h')"
    then have reg': "registerMetric h root segs val unit description = Some (None, h')"
      by (simp add: RegisterMetric_def p)
    show wf': "wf h'" by (rule wf_registerMetric[OF assms(1) r reg'])
    from reg' obtain q s where snoc: "segs = q @ [s]"
      by (cases segs rule: rev_cases) (auto simp: registerMetric_Nil)
    from reg' obtain v where v: "newValue val = Some v"
      unfolding snoc registerMetric_snoc by (auto split: prod.splits sum.splits option.splits)
    from assms(1) r v have gm: "\<exists>m. getDirectoryOrMetric h' root segs = Some (None, Some m)"
    proof (cases rule: registerMetric_outcomes[where p = q and s = s and unit = unit and description = description])
      case (ancestor q m)
      then show ?thesis using reg' snoc by simp
    next
      case (bound r)
      then show ?thesis using reg' snoc by simp
    next
      case (success h1 current)
      let ?met = "\<lparr>Description = description, Unit = unit, Value = v, metricEnclosingListEntry = None\<rparr>"
      have h': "h' = installed h1 current s ?met" using success(9) reg' snoc by simp
      have le1: "heap_le h1 h'" unfolding h' by (rule heap_le_installed[OF success(5,8)])
      have dh1: "root < length (dirs h1)" using r success(4) by (auto simp: heap_le_def)
      have gd: "getDirectory h' root q = Some current"
        by (rule getDirectory_mono[OF success(3) le1 dh1 success(6)])
      have "lookup h' current s = Some (length (entries h1))"
        unfolding h' using installed_lookup[OF success(5)] by simp
      then show ?thesis
        unfolding snoc getDirectoryOrMetric_snoc h'
        using gd[unfolded h'] installed_simps(7)[OF success(5)] by simp
    qed
    then obtain m where m: "getDirectoryOrMetric h' root segs = Some (None, Some m)" by blast
    have "GetMetric h' root P = Some (Some m, h')" using m by (simp add: GetMetric_def p)
    moreover have "metricAbsPath h' m = Some P"
      using metricAbsPath_lookup[OF wf' m] assms(3) by simp
    ultimately show "\<exists>m. GetMetric h' root P = Some (Some m, h') \<and> metricAbsPath h' m = Some P" by blast
  }
qed

text \<open>The theorem for \<open>/proc/rpc-count\<close>, registered on the initial heap.\<close>

theorem AbsPath_round_trip_witness:
  "wf initial \<and>
   \<not> TrimSpace_empty ''proc'' \<and> CHR ''/'' \<notin> set ''proc'' \<and>
   \<not> TrimSpace_empty ''rpc-count'' \<and> CHR ''/'' \<notin> set ''rpc-count'' \<and>
   ''/proc/rpc-count'' = ''/'' @ String [''proc'', ''rpc-count''] \<and>
   (\<exists>h' m. RegisterMetric initial ''/proc/rpc-count'' (PointerSpec KindInt) ''None'' ''RPC count''
        = Some (None, h') \<and>
      GetMetric h' root ''/proc/rpc-count'' = Some (Some m, h') \<and>
      metricAbsPath h' m = Some ''/proc/rpc-count'') \<and>
   directoryAbsPath initial root = Some ''/''"
proof -
  have w: "wf initial" by (rule wf_root)
  have s: "\<forall>s \<in> set [''proc'', ''rpc-count'']. \<not> TrimSpace_empty s \<and> CHR ''/'' \<notin> set s"
    by (simp add: TrimSpace_empty_def isSpace1_def)
  have p: "''/proc/rpc-count'' = ''/'' @ String [''proc'', ''rpc-count'']" by (simp add: String_def)
  from example_registration obtain h' where
    reg: "RegisterMetric initial ''/proc/rpc-count'' (PointerSpec KindInt) ''None'' ''RPC count'' = Some (None, h')"
    by blast
  have s': "\<not> TrimSpace_empty ''proc''" "CHR ''/'' \<notin> set ''proc''"
    "\<not> TrimSpace_empty ''rpc-count''" "CHR ''/'' \<notin> set ''rpc-count''"
    by (simp_all add: TrimSpace_empty_def isSpace1_def)
  from AbsPath_round_trip[OF w s p, of "PointerSpec KindInt" "''None''" "''RPC count''" h'] reg
  show ?thesis using w s' p by blast
qed

text \<open>
  C8, amended. On a well-formed heap and with enough fuel (the number of directories
  is enough), \<^verbatim>\<open>GetAllMetrics\<close> on directory \<open>d\<close> returns, and what it does is to deliver
  a list of metrics to the collector, stopping at the first error, which it returns
  (\<open>deliver\<close>). The list holds exactly the metrics that a non-empty path resolves to from
  \<open>d\<close>, no directory, each once, and in ascending order of these paths, the paths
  compared segment by segment as sequences of names: this is the depth-first pre-order
  with the children of each directory in ascending order of their names.
\<close>

theorem GetAllMetrics_preorder:
  assumes "wf h" and "d < length (dirs h)" and "length (dirs h) - d \<le> fuel"
  shows "\<exists>pms. GetAllMetrics fuel h collect d c = Some (deliver collect c (map snd pms)) \<and>
     set pms = {(p, m). getDirectoryOrMetric h d p = Some (None, Some m)} \<and>
     sorted_wrt (<) (map fst pms)"
proof (intro exI[of _ "leaves fuel h d"] conjI)
  show "GetAllMetrics fuel h collect d c = Some (deliver collect c (map snd (leaves fuel h d)))"
    by (rule GetAllMetrics_deliver[OF assms])
  show "set (leaves fuel h d) = {(p, m). getDirectoryOrMetric h d p = Some (None, Some m)}"
    using leaves_set[OF assms] by auto
  show "sorted_wrt (<) (map fst (leaves fuel h d))"
    by (rule leaves_sorted[OF assms])
qed

text \<open>
  The theorem for the namespace with the metrics \<open>/proc/a/x\<close> and \<open>/proc/a-b\<close> and a
  collector that records the absolute path of the metric it is given and returns an
  error: the traversal returns that error after the first metric.
\<close>

theorem GetAllMetrics_preorder_witness:
  "\<exists>h. wf h \<and> root < length (dirs h) \<and> length (dirs h) - root \<le> 3 \<and>
     (\<exists>pms. GetAllMetrics 3 h (\<lambda>c m. (Some ErrPathInUse, c @ [Option.bind m (metricAbsPath h)])) root []
          = Some (deliver (\<lambda>c m. (Some ErrPathInUse, c @ [Option.bind m (metricAbsPath h)])) [] (map snd pms)) \<and>
        set pms = {(p, m). getDirectoryOrMetric h root p = Some (None, Some m)} \<and>
        sorted_wrt (<) (map fst pms)) \<and>
     GetAllMetrics 3 h (\<lambda>c m. (Some ErrPathInUse, c @ [Option.bind m (metricAbsPath h)])) root []
       = Some (Some ErrPathInUse, [Some ''/proc/a/x''])"
proof -
  from example_traversal obtain h where w: "wf h" and n: "length (dirs h) = 3"
    and e: "GetAllMetrics 3 h (\<lambda>c m. (Some ErrPathInUse, c @ [Option.bind m (metricAbsPath h)])) root []
       = Some (Some ErrPathInUse, [Some ''/proc/a/x''])" by blast
  have r: "root < length (dirs h)" using n by (simp add: root_def)
  have f: "length (dirs h) - root \<le> 3" using n by simp
  from GetAllMetrics_preorder[OF w r f,
      of "\<lambda>c m. (Some ErrPathInUse, c @ [Option.bind m (metricAbsPath h)])" "[]"] w r f e
  show ?thesis by blast
qed

text \<open>
  C8 as it is stated says that the delivered sequence is the sorted list of the metric
  paths. For the printed paths this fails: in that namespace the metrics are delivered as
  \<open>/proc/a/x\<close>, \<open>/proc/a-b\<close> (the name \<open>a\<close> is less than the name \<open>a-b\<close>), and the string
  \<open>/proc/a-b\<close> is less than the string \<open>/proc/a/x\<close> (the byte \<open>-\<close> is less than the byte
  \<open>/\<close>).
\<close>

theorem GetAllMetrics_not_sorted_as_strings:
  "\<exists>h1 h. RegisterMetric initial ''/proc/a/x'' (PointerSpec KindInt) ''None'' ''first'' = Some (None, h1) \<and>
     RegisterMetric h1 ''/proc/a-b'' (PointerSpec KindInt) ''None'' ''second'' = Some (None, h) \<and>
     GetAllMetrics 3 h (\<lambda>c m. (None :: error option, c @ [Option.bind m (metricAbsPath h)])) root []
       = Some (None, [Some ''/proc/a/x'', Some ''/proc/a-b'']) \<and>
     ''/proc/a-b'' < ''/proc/a/x'' \<and>
     sort [''/proc/a/x'', ''/proc/a-b''] = [''/proc/a-b'', ''/proc/a/x'']"
proof -
  have "''/proc/a-b'' < ''/proc/a/x''" by code_simp
  moreover have "sort [''/proc/a/x'', ''/proc/a-b''] = [''/proc/a-b'', ''/proc/a/x'']" by code_simp
  ultimately show ?thesis using example_traversal by blast
qed

text \<open>
  C9, amended. A metric registration that returns an error is atomic on the namespace:
  the error is \<^verbatim>\<open>ErrPathInUse\<close>, and the directories, the list entries and the metrics
  that existed before the call are what they were (the call may have allocated the
  metric object that it then did not store). A walk that creates a directory goes on
  through new, empty directories and ends in success.
\<close>

theorem registerMetric_failure_is_atomic:
  assumes "wf h" and "d < length (dirs h)"
    and "registerMetric h d path val unit description = Some (Some e, h')"
  shows "e = ErrPathInUse \<and> dirs h' = dirs h \<and> entries h' = entries h \<and>
     take (length (metrics h)) (metrics h') = metrics h"
  using assms by (rule registerMetric_failure_keeps)

text \<open>
  The theorem for a second registration below \<open>/proc/rpc-count\<close>, which is a metric by
  then.
\<close>

theorem registerMetric_failure_is_atomic_witness:
  "\<exists>h1 h2. wf h1 \<and> root < length (dirs h1) \<and>
     RegisterMetric initial ''/proc/rpc-count'' (PointerSpec KindInt) ''None'' ''RPC count'' = Some (None, h1) \<and>
     registerMetric h1 root [''proc'', ''rpc-count'', ''x''] (PointerSpec KindInt) ''None'' ''again''
       = Some (Some ErrPathInUse, h2) \<and>
     dirs h2 = dirs h1 \<and> entries h2 = entries h1 \<and>
     take (length (metrics h1)) (metrics h2) = metrics h1"
proof -
  from example_registration obtain h1 where
    reg: "RegisterMetric initial ''/proc/rpc-count'' (PointerSpec KindInt) ''None'' ''RPC count'' = Some (None, h1)"
    by blast
  have r0: "root < length (dirs initial)" by (simp add: initial_def newDirectory_def root_def)
  have p: "newPathSpec ''/proc/rpc-count'' = [''proc'', ''rpc-count'']"
    by (simp add: newPathSpec_filter TrimSpace_empty_def isSpace1_def)
  have reg': "registerMetric initial root [''proc'', ''rpc-count''] (PointerSpec KindInt) ''None'' ''RPC count'' = Some (None, h1)"
    using reg by (simp add: RegisterMetric_def p)
  have w1: "wf h1" by (rule wf_registerMetric[OF wf_root r0 reg'])
  have r1: "root < length (dirs h1)" using w1 by (simp add: wf_def root_def)
  have "\<exists>e h2. registerMetric h1 root [''proc'', ''rpc-count'', ''x''] (PointerSpec KindInt) ''None'' ''again''
       = Some (Some e, h2)"
  proof -
    have "fst (the (do { (_, h) \<leftarrow> RegisterMetric initial ''/proc/rpc-count'' (PointerSpec KindInt) ''None'' ''RPC count'';
        registerMetric h root [''proc'', ''rpc-count'', ''x''] (PointerSpec KindInt) ''None'' ''again'' })) = Some ErrPathInUse
      \<and> (do { (_, h) \<leftarrow> RegisterMetric initial ''/proc/rpc-count'' (PointerSpec KindInt) ''None'' ''RPC count'';
        registerMetric h root [''proc'', ''rpc-count'', ''x''] (PointerSpec KindInt) ''None'' ''again'' }) \<noteq> None"
      by code_simp
    then show ?thesis using reg
      by (cases "registerMetric h1 root [''proc'', ''rpc-count'', ''x''] (PointerSpec KindInt) ''None'' ''again''") auto
  qed
  then obtain e h2 where f: "registerMetric h1 root [''proc'', ''rpc-count'', ''x''] (PointerSpec KindInt) ''None'' ''again''
       = Some (Some e, h2)" by blast
  from registerMetric_failure_is_atomic[OF w1 r1 f] f reg w1 r1 show ?thesis by blast
qed

text \<open>
  C9 as it is stated fails: there is no well-formed heap on which \<^verbatim>\<open>registerMetric\<close>
  returns \<^verbatim>\<open>ErrPathInUse\<close> and leaves a directory or a list entry changed or added.
\<close>

theorem no_partial_registration:
  "\<not> (\<exists>h d path val unit description h'. wf h \<and> d < length (dirs h) \<and>
        registerMetric h d path val unit description = Some (Some ErrPathInUse, h') \<and>
        (dirs h' \<noteq> dirs h \<or> entries h' \<noteq> entries h))"
  using registerMetric_failure_keeps by blast

text \<open>
  C10. For every directory \<open>d\<close> and every path string that parses to the empty path,
  among them the strings \<^verbatim>\<open>""\<close>, \<^verbatim>\<open>"/"\<close> and \<^verbatim>\<open>"//"\<close>: \<^verbatim>\<open>GetMetric\<close> returns
  \<^verbatim>\<open>nil\<close>, \<^verbatim>\<open>GetDirectory\<close> returns \<open>d\<close>, \<^verbatim>\<open>GetDirectoryOrMetric\<close> returns
  \<open>(d, nil)\<close>, and each of them leaves the heap as it is.
\<close>

theorem lookup_of_empty_path:
  "newPathSpec '''' = [] \<and> newPathSpec ''/'' = [] \<and> newPathSpec ''//'' = [] \<and>
   (newPathSpec relativePath = [] \<longrightarrow>
      GetMetric h d relativePath = Some (None, h) \<and>
      GetDirectory h d relativePath = (Some d, h) \<and>
      GetDirectoryOrMetric h d relativePath = Some ((Some d, None), h))"
  by (simp add: newPathSpec_filter GetMetric_def GetDirectory_def GetDirectoryOrMetric_def)

text \<open>The theorem for the string \<^verbatim>\<open>"//"\<close> at the root of the initial heap.\<close>

theorem lookup_of_empty_path_witness:
  "newPathSpec ''//'' = [] \<and>
   GetMetric initial root ''//'' = Some (None, initial) \<and>
   GetDirectory initial root ''//'' = (Some root, initial) \<and>
   GetDirectoryOrMetric initial root ''//'' = Some ((Some root, None), initial)"
  using lookup_of_empty_path[of "''//''" initial root] by simp

end
